theory Spec2Isabelle
  imports Main
begin

section \<open>The failover provider of \<^verbatim>\<open>src/failover-provider.js\<close>\<close>

text \<open>
  The class \<^verbatim>\<open>FailoverProvider\<close> keeps a list of provider candidates, the index of
  the active one, a retry bound and a retry predicate. \<^verbatim>\<open>initialize\<close> wraps the
  first provider in a JS \<^verbatim>\<open>Proxy\<close> whose \<^verbatim>\<open>get\<close> trap runs \<^verbatim>\<open>_proxy\<close> on the
  active entry. The embedding below passes the instance explicitly: every method takes
  the instance and returns the updated one. An accessor of a provider can read the
  composite again and so start a dispatch within a dispatch, without bound; the dispatch
  functions therefore take a recursion budget and return \<open>None\<close> when it runs out.
\<close>

subsection \<open>Values, providers and entries\<close>

text \<open>
  JavaScript values, as far as the class looks at them: \<^verbatim>\<open>throw\<close> accepts any value,
  and the default retry predicate asks \<^verbatim>\<open>error instanceof Error\<close>. \<open>JError m\<close> is an
  instance of \<^verbatim>\<open>Error\<close> (or of a subclass such as \<^verbatim>\<open>TypeError\<close>) with message \<open>m\<close>;
  the other constructors are values that are not instances of \<^verbatim>\<open>Error\<close>.
\<close>

datatype jsval = JUndefined | JNull | JBool bool | JNum int | JStr string | JError string

fun instanceof_Error :: "jsval \<Rightarrow> bool" where
  "instanceof_Error (JError m) = True"
| "instanceof_Error v = False"

text \<open>
  What \<^verbatim>\<open>prop.apply(target.provider, args)\<close> does: it returns a value without a
  \<^verbatim>\<open>then\<close> member, throws, or returns a promise that is fulfilled, is rejected, or
  never settles. \<open>elapsed\<close> is the time in milliseconds the provider takes until then;
  the class never reads a clock, so nothing below depends on it.
\<close>

datatype settle = Return jsval | Throw jsval | Resolve jsval | Reject jsval | Pending

record outcome =
  settles :: settle
  elapsed :: nat

type_synonym jsfunction = "jsval list \<Rightarrow> outcome"

text \<open>
  \<^verbatim>\<open>Reflect.get(target.provider, p, receiver)\<close> is called with the composite as the
  receiver, so an accessor of the provider runs with \<^verbatim>\<open>this\<close> bound to the composite:
  what it reads through \<^verbatim>\<open>this\<close> goes through the \<^verbatim>\<open>get\<close> trap again. The body of an
  accessor is a sequence of such reads that ends by returning a value, by throwing, or by
  returning what one more read gives (\<^verbatim>\<open>return this.q\<close>, which may be a function). A
  read gives the body a value, the fact that the member is a function, or the error the
  read threw (which the body may catch). An accessor that returns a function of its own
  without reading \<^verbatim>\<open>this\<close> is, for the class, a function member. Bodies that apply
  what they read are not modelled.
\<close>

datatype read = Value jsval | Function | Threw jsval

datatype accessor =
    Yield jsval
  | Raise jsval
  | Forward string
  | ReadThis string "read \<Rightarrow> accessor"

text \<open>
  A member of a provider is a data property (\<^verbatim>\<open>undefined\<close> for a missing member), a
  function (whose \<^verbatim>\<open>this\<close> is the provider itself when the engine applies it), or an
  accessor.
\<close>

datatype member = Data jsval | Method jsfunction | Accessor accessor

type_synonym provider = "string \<Rightarrow> member"

text \<open>The typedef \<^verbatim>\<open>ProviderProxy\<close>: \<^verbatim>\<open>{ id, provider, ms }\<close>.\<close>

record entry =
  entry_id :: string
  provider :: provider
  ms :: nat

subsection \<open>The factory: constructor, uid, addProvider, initialize\<close>

record config =
  cfg_retries :: "int option"
  cfg_shouldRetryOn :: "(jsval \<Rightarrow> bool) option"

record failover =
  retries :: int
  shouldRetryOn :: "jsval \<Rightarrow> bool"
  activeProvider :: nat
  providers :: "entry list"

definition default_shouldRetryOn :: "jsval \<Rightarrow> bool" where
  "default_shouldRetryOn error = instanceof_Error error"

text \<open>
  \<^verbatim>\<open>constructor ({ retries = 3, shouldRetryOn = (error) => error instanceof Error } = {})\<close>:
  an option left out of the config takes its default.
\<close>

definition new_FailoverProvider :: "config \<Rightarrow> failover" where
  "new_FailoverProvider cfg =
     \<lparr> retries = (case cfg_retries cfg of None \<Rightarrow> 3 | Some r \<Rightarrow> r),
       shouldRetryOn = (case cfg_shouldRetryOn cfg of None \<Rightarrow> default_shouldRetryOn | Some f \<Rightarrow> f),
       activeProvider = 0,
       providers = [] \<rparr>"

text \<open>
  \<^verbatim>\<open>uid\<close> appends \<^verbatim>\<open>Math.round(Math.random() * 10)\<close> to the identifier until it has
  \<^verbatim>\<open>len\<close> characters. The random source is an argument: \<open>rnd i\<close> is the \<open>i\<close>-th
  rounded draw, a whole number from 0 to 10. \<open>draw_str\<close> is its decimal string (the
  draw 10 appends two characters).
\<close>

definition draw_str :: "nat \<Rightarrow> string" where
  "draw_str d = (if d < 10 then [''0123456789'' ! d] else ''10'')"

function uid_loop :: "nat \<Rightarrow> string \<Rightarrow> (nat \<Rightarrow> nat) \<Rightarrow> string \<times> (nat \<Rightarrow> nat)" where
  "uid_loop len ident rnd =
     (if length ident < len
      then uid_loop len (ident @ draw_str (rnd 0)) (\<lambda>i. rnd (Suc i))
      else (ident, rnd))"
  by pat_completeness auto
termination
  by (relation "measure (\<lambda>(len, ident, rnd). len - length ident)") (auto simp: draw_str_def)

declare uid_loop.simps [simp del]

definition uid :: "nat \<Rightarrow> (nat \<Rightarrow> nat) \<Rightarrow> jsval + string \<times> (nat \<Rightarrow> nat)" where
  "uid len rnd =
     (if len < 1 \<or> len > 256
      then Inl (JError ''The UID length must be between 1 and 256 characters.'')
      else Inr (uid_loop len [] rnd))"

text \<open>
  \<^verbatim>\<open>addProvider\<close> pushes \<^verbatim>\<open>{ id: uid(), provider, ms: 0 }\<close> and returns \<^verbatim>\<open>this\<close>.
  The value a method of the factory returns is either the instance itself or a string.
\<close>

datatype retval = RThis | RString string

definition addProvider ::
  "provider \<Rightarrow> (nat \<Rightarrow> nat) \<Rightarrow> failover \<Rightarrow> jsval + retval \<times> failover \<times> (nat \<Rightarrow> nat)" where
  "addProvider p rnd s =
     (case uid 12 rnd of
        Inl er \<Rightarrow> Inl er
      | Inr (ident, rnd') \<Rightarrow>
          Inr (RThis,
               s\<lparr>providers := providers s @ [\<lparr>entry_id = ident, provider = p, ms = 0\<rparr>]\<rparr>,
               rnd'))"

text \<open>
  \<^verbatim>\<open>initialize\<close> throws on an empty list and otherwise returns a \<^verbatim>\<open>Proxy\<close> whose
  target is the first provider and whose \<^verbatim>\<open>get\<close> trap is \<open>get_trap\<close> below.
\<close>

record composite =
  proxy_target :: provider

definition initialize :: "failover \<Rightarrow> jsval + composite" where
  "initialize s =
     (if length (providers s) = 0
      then Inl (JError ''Cannot initialize an empty provider. Call `addProvider` before this function.'')
      else Inr \<lparr>proxy_target = provider (hd (providers s))\<rparr>)"

subsection \<open>Dispatch: \_switch and \_proxy\<close>

text \<open>
  Reading a member of \<^verbatim>\<open>undefined\<close> throws a \<^verbatim>\<open>TypeError\<close>; this is what
  \<^verbatim>\<open>this._providers[this._activeProvider].id\<close> does when the index is out of range.
\<close>

definition undefined_read :: "string \<Rightarrow> jsval" where
  "undefined_read m = JError (''Cannot read properties of undefined (reading '' @ m @ '')'')"

definition switch :: "entry \<Rightarrow> failover \<Rightarrow> jsval + entry \<times> failover" where
  "switch failedProvider s =
     (if activeProvider s < length (providers s)
      then
        let s' = (if entry_id failedProvider = entry_id (providers s ! activeProvider s)
                  then s\<lparr>activeProvider := (activeProvider s + 1) mod length (providers s)\<rparr>
                  else s)
        in Inr (providers s' ! activeProvider s', s')
      else Inl (undefined_read ''id''))"

text \<open>
  A ghost trace records, in order, every \<^verbatim>\<open>Reflect.get\<close> of a member on an entry and
  every \<^verbatim>\<open>prop.apply\<close> with its arguments; what a nested access of the composite does
  (an accessor reading through \<^verbatim>\<open>this\<close>, or the application of a function that such a
  read handed on) is kept apart in \<open>Within\<close>. The code does not keep a trace; the
  properties about the number of attempts and about the arguments are stated on it.
\<close>

datatype event = Lookup string string | Apply string "jsval list" | Within "event list"

text \<open>
  The arrow function that \<^verbatim>\<open>_proxy\<close> returns for a function member closes over
  \<^verbatim>\<open>target\<close>, \<^verbatim>\<open>prop\<close>, \<^verbatim>\<open>p\<close> and \<^verbatim>\<open>retries\<close>. \<^verbatim>\<open>prop\<close> is a function of the
  provider or, when an accessor handed on what it read from the composite, such an arrow
  function again.
\<close>

datatype closure = Closure (c_target: entry) (c_prop: func) (c_p: string) (c_retries: int)
  and func = Native jsfunction | Composite closure

text \<open>What \<^verbatim>\<open>Reflect.get\<close> gives, and what \<^verbatim>\<open>_proxy\<close> gives.\<close>

datatype got = GotValue jsval | GotThrow jsval | GotFn func

datatype property = PropValue jsval | PropThrow jsval | PropFn closure

fun got_of :: "property \<Rightarrow> got" where
  "got_of (PropValue v) = GotValue v"
| "got_of (PropThrow er) = GotThrow er"
| "got_of (PropFn c) = GotFn (Composite c)"

fun view :: "property \<Rightarrow> read" where
  "view (PropValue v) = Value v"
| "view (PropThrow er) = Threw er"
| "view (PropFn c) = Function"

text \<open>
  \<open>proxy\<close> is \<^verbatim>\<open>_proxy(target, p, receiver, retries)\<close> up to the \<^verbatim>\<open>return\<close> of the
  property or of the arrow function; \<open>access\<close> runs the body of an accessor with
  \<^verbatim>\<open>this\<close> the composite; \<open>get_trap\<close> is the \<^verbatim>\<open>get\<close> trap of the proxy,
  \<^verbatim>\<open>this._proxy(this._providers[this._activeProvider], p, receiver)\<close> with the default
  \<^verbatim>\<open>retries = this._retries\<close>. With the index out of range the target is
  \<^verbatim>\<open>undefined\<close>: reading \<^verbatim>\<open>target.provider\<close> throws inside the \<^verbatim>\<open>try\<close>, and the
  \<^verbatim>\<open>catch\<close> either rethrows or throws again in \<^verbatim>\<open>_switch\<close> on \<^verbatim>\<open>failedProvider.id\<close>.
  The first argument is the recursion budget.
\<close>

fun proxy :: "nat \<Rightarrow> failover \<Rightarrow> entry \<Rightarrow> string \<Rightarrow> int \<Rightarrow> (property \<times> failover \<times> event list) option"
  and access :: "nat \<Rightarrow> failover \<Rightarrow> accessor \<Rightarrow> (got \<times> failover \<times> event list) option"
  and get_trap :: "nat \<Rightarrow> failover \<Rightarrow> string \<Rightarrow> (property \<times> failover \<times> event list) option"
where
  "proxy 0 s target p r = None"
| "proxy (Suc n) s target p r =
     (case (case provider target p of
              Data v \<Rightarrow> Some (GotValue v, s, [])
            | Method f \<Rightarrow> Some (GotFn (Native f), s, [])
            | Accessor a \<Rightarrow> access n s a) of
        None \<Rightarrow> None
      | Some (GotValue v, s1, tr1) \<Rightarrow> Some (PropValue v, s1, Lookup (entry_id target) p # tr1)
      | Some (GotFn f, s1, tr1) \<Rightarrow>
          Some (PropFn (Closure target f p r), s1, Lookup (entry_id target) p # tr1)
      | Some (GotThrow er, s1, tr1) \<Rightarrow>
          if r \<le> 0 \<or> \<not> shouldRetryOn s1 er
          then Some (PropThrow er, s1, Lookup (entry_id target) p # tr1)
          else (case switch target s1 of
                  Inl er' \<Rightarrow> Some (PropThrow er', s1, Lookup (entry_id target) p # tr1)
                | Inr (nxt, s2) \<Rightarrow>
                    (case proxy n s2 nxt p (r - 1) of
                       None \<Rightarrow> None
                     | Some (pr, s3, tr) \<Rightarrow>
                         Some (pr, s3, Lookup (entry_id target) p # tr1 @ tr))))"
| "access 0 s a = None"
| "access (Suc n) s (Yield v) = Some (GotValue v, s, [])"
| "access (Suc n) s (Raise er) = Some (GotThrow er, s, [])"
| "access (Suc n) s (Forward q) =
     (case get_trap n s q of
        None \<Rightarrow> None
      | Some (pr, s1, tr1) \<Rightarrow> Some (got_of pr, s1, [Within tr1]))"
| "access (Suc n) s (ReadThis q k) =
     (case get_trap n s q of
        None \<Rightarrow> None
      | Some (pr, s1, tr1) \<Rightarrow>
          (case access n s1 (k (view pr)) of
             None \<Rightarrow> None
           | Some (g, s2, tr2) \<Rightarrow> Some (g, s2, Within tr1 # tr2)))"
| "get_trap 0 s p = None"
| "get_trap (Suc n) s p =
     (if activeProvider s < length (providers s)
      then proxy n s (providers s ! activeProvider s) p (retries s)
      else if retries s \<le> 0 \<or> \<not> shouldRetryOn s (undefined_read ''provider'')
           then Some (PropThrow (undefined_read ''provider''), s, [])
           else Some (PropThrow (undefined_read ''id''), s, []))"

declare proxy.simps [simp del] access.simps [simp del] get_trap.simps [simp del]

text \<open>\<^verbatim>\<open>Reflect.get(target.provider, p, receiver)\<close> by itself.\<close>

definition reflect_get ::
  "nat \<Rightarrow> failover \<Rightarrow> entry \<Rightarrow> string \<Rightarrow> (got \<times> failover \<times> event list) option" where
  "reflect_get n s target p =
     (case provider target p of
        Data v \<Rightarrow> Some (GotValue v, s, [])
      | Method f \<Rightarrow> Some (GotFn (Native f), s, [])
      | Accessor a \<Rightarrow> access n s a)"

text \<open>
  What a call of the arrow function comes to, once the promise it may return has settled:
  a returned value fulfils the promise of a \<^verbatim>\<open>catch\<close> handler, a thrown value rejects
  it, a returned promise is adopted.
\<close>

datatype result = Returned jsval | Thrown jsval | Resolved jsval | Rejected jsval | Unsettled

fun in_promise :: "result \<Rightarrow> result" where
  "in_promise (Returned v) = Resolved v"
| "in_promise (Thrown er) = Rejected er"
| "in_promise res = res"

text \<open>How the caller of an arrow function sees its result.\<close>

fun settle_of :: "result \<Rightarrow> settle" where
  "settle_of (Returned v) = Return v"
| "settle_of (Thrown er) = Throw er"
| "settle_of (Resolved v) = Resolve v"
| "settle_of (Rejected er) = Reject er"
| "settle_of Unsettled = Pending"

text \<open>
  The arrow function applied to \<^verbatim>\<open>args\<close>, run to the settlement of the promise it
  returns, with no call from outside on the instance in between. The two \<^verbatim>\<open>catch\<close>
  bodies of the source are the same statements; \<open>failure\<close> is the caught value together
  with whether it was caught in the promise chain.
\<close>

fun invoke :: "nat \<Rightarrow> closure \<Rightarrow> jsval list \<Rightarrow> failover \<Rightarrow> (result \<times> failover \<times> event list) option" where
  "invoke 0 c args s = None"
| "invoke (Suc n) c args s =
     (case (case c_prop c of
              Native f \<Rightarrow> Some (settles (f args), s, [])
            | Composite c' \<Rightarrow>
                (case invoke n c' args s of
                   None \<Rightarrow> None
                 | Some (res, s1, tr1) \<Rightarrow> Some (settle_of res, s1, [Within tr1]))) of
        None \<Rightarrow> None
      | Some (st, s1, tr1) \<Rightarrow>
          (let here = Apply (entry_id (c_target c)) args # tr1;
               failure = (case st of
                            Throw er \<Rightarrow> Some (er, False)
                          | Reject er \<Rightarrow> Some (er, True)
                          | _ \<Rightarrow> None)
           in case failure of
                None \<Rightarrow>
                  (case st of
                     Return v \<Rightarrow> Some (Returned v, s1, here)
                   | Resolve v \<Rightarrow> Some (Resolved v, s1, here)
                   | _ \<Rightarrow> Some (Unsettled, s1, here))
              | Some (er, async) \<Rightarrow>
                  (case (if c_retries c \<le> 0 \<or> \<not> shouldRetryOn s1 er
                         then Some (Thrown er, s1, here)
                         else (case switch (c_target c) s1 of
                                 Inl er' \<Rightarrow> Some (Thrown er', s1, here)
                               | Inr (nxt, s2) \<Rightarrow>
                                   (case proxy n s2 nxt (c_p c) (c_retries c - 1) of
                                      None \<Rightarrow> None
                                    | Some (PropThrow er2, s3, tr) \<Rightarrow> Some (Thrown er2, s3, here @ tr)
                                    | Some (PropValue v, s3, tr) \<Rightarrow> Some (Returned v, s3, here @ tr)
                                    | Some (PropFn c', s3, tr) \<Rightarrow>
                                        (case invoke n c' args s3 of
                                           None \<Rightarrow> None
                                         | Some (res, s4, tr') \<Rightarrow>
                                             Some (res, s4, here @ tr @ tr')))))
                   of None \<Rightarrow> None
                    | Some (res, s', tr) \<Rightarrow>
                        Some ((if async then in_promise res else res), s', tr))))"

declare invoke.simps [simp del]

text \<open>
  \<^verbatim>\<open>prop.apply(target.provider, args)\<close> by itself: a function of the provider settles as
  the provider has it; an arrow function of the composite is run.
\<close>

definition apply_prop ::
  "nat \<Rightarrow> func \<Rightarrow> jsval list \<Rightarrow> failover \<Rightarrow> (settle \<times> failover \<times> event list) option" where
  "apply_prop n f args s =
     (case f of
        Native g \<Rightarrow> Some (settles (g args), s, [])
      | Composite c' \<Rightarrow>
          (case invoke n c' args s of
             None \<Rightarrow> None
           | Some (res, s1, tr1) \<Rightarrow> Some (settle_of res, s1, [Within tr1])))"

text \<open>
  A method call \<^verbatim>\<open>composite.p(...args)\<close> on the composite: the \<^verbatim>\<open>get\<close> trap, then
  the application of what it returned. Applying a value that is not a function is a
  \<^verbatim>\<open>TypeError\<close> of the language at the call site.
\<close>

definition call ::
  "nat \<Rightarrow> failover \<Rightarrow> string \<Rightarrow> jsval list \<Rightarrow> (result \<times> failover \<times> event list) option" where
  "call n s p args =
     (case get_trap n s p of
        None \<Rightarrow> None
      | Some (PropThrow er, s', tr) \<Rightarrow> Some (Thrown er, s', tr)
      | Some (PropValue v, s', tr) \<Rightarrow> Some (Thrown (JError (p @ '' is not a function'')), s', tr)
      | Some (PropFn c, s', tr) \<Rightarrow>
          (case invoke n c args s' of
             None \<Rightarrow> None
           | Some (res, s'', tr') \<Rightarrow> Some (res, s'', tr @ tr')))"

text \<open>
  The statements of a \<^verbatim>\<open>catch\<close> body after \<^verbatim>\<open>_switch\<close>:
  \<^verbatim>\<open>const property = this._proxy(provider, p, receiver, retries - 1)\<close>, then
  \<^verbatim>\<open>if (typeof property === 'function') return property.apply(this, args)\<close>, else
  \<^verbatim>\<open>return property\<close>. \<open>invoke_failure\<close> below shows that \<open>invoke\<close> runs exactly this.
\<close>

definition reattempt ::
  "nat \<Rightarrow> failover \<Rightarrow> entry \<Rightarrow> string \<Rightarrow> int \<Rightarrow> jsval list
     \<Rightarrow> (result \<times> failover \<times> event list) option" where
  "reattempt n s target p r args =
     (case proxy n s target p r of
        None \<Rightarrow> None
      | Some (PropThrow er, s', tr) \<Rightarrow> Some (Thrown er, s', tr)
      | Some (PropValue v, s', tr) \<Rightarrow> Some (Returned v, s', tr)
      | Some (PropFn c, s', tr) \<Rightarrow>
          (case invoke n c args s' of
             None \<Rightarrow> None
           | Some (res, s'', tr') \<Rightarrow> Some (res, s'', tr @ tr')))"

text \<open>
  \<open>call\<close> and \<open>reattempt\<close> differ only in what becomes of a member that is not a
  function; \<open>dispatch_with\<close> takes that as the argument \<open>h\<close>, so that one induction
  serves both (\<open>reattempt_dispatch\<close>, \<open>call_dispatch\<close>).
\<close>

definition dispatch_with ::
  "(jsval \<Rightarrow> result) \<Rightarrow> nat \<Rightarrow> failover \<Rightarrow> entry \<Rightarrow> string \<Rightarrow> int \<Rightarrow> jsval list
     \<Rightarrow> (result \<times> failover \<times> event list) option" where
  "dispatch_with h n s target p r args =
     (case proxy n s target p r of
        None \<Rightarrow> None
      | Some (PropThrow er, s', tr) \<Rightarrow> Some (Thrown er, s', tr)
      | Some (PropValue v, s', tr) \<Rightarrow> Some (h v, s', tr)
      | Some (PropFn c, s', tr) \<Rightarrow>
          (case invoke n c args s' of
             None \<Rightarrow> None
           | Some (res, s'', tr') \<Rightarrow> Some (res, s'', tr @ tr')))"

subsection \<open>Observations used in the properties\<close>


fun result_error :: "result \<Rightarrow> jsval option" where
  "result_error (Thrown er) = Some er"
| "result_error (Rejected er) = Some er"
| "result_error res = None"

text \<open>
  The error that a member raises by itself, without reading the composite, when it is read
  and then applied to \<open>args\<close>: an accessor that throws, or a function that throws or
  rejects.
\<close>

fun failure_of :: "member \<Rightarrow> jsval list \<Rightarrow> jsval option" where
  "failure_of (Data v) args = None"
| "failure_of (Accessor (Raise er)) args = Some er"
| "failure_of (Accessor a) args = None"
| "failure_of (Method f) args =
     (case settles (f args) of Throw er \<Rightarrow> Some er | Reject er \<Rightarrow> Some er | _ \<Rightarrow> None)"

definition fails_retryably :: "failover \<Rightarrow> entry \<Rightarrow> string \<Rightarrow> jsval list \<Rightarrow> bool" where
  "fails_retryably s e p args =
     (case failure_of (provider e p) args of None \<Rightarrow> False | Some er \<Rightarrow> shouldRetryOn s er)"



text \<open>
  One attempt of a dispatch on a provider is one \<^verbatim>\<open>Reflect.get\<close> by that dispatch on
  the provider's entry: \<open>attempted\<close> lists the identifiers of the entries that the dispatch
  itself attempted, in order, \<open>touched\<close> those of the nested accesses as well.
\<close>

fun attempted :: "event list \<Rightarrow> string list" where
  "attempted [] = []"
| "attempted (Lookup i p # tr) = i # attempted tr"
| "attempted (Apply i xs # tr) = attempted tr"
| "attempted (Within tr' # tr) = attempted tr"

fun touched :: "event list \<Rightarrow> string list" where
  "touched [] = []"
| "touched (Lookup i p # tr) = i # touched tr"
| "touched (Apply i xs # tr) = touched tr"
| "touched (Within tr' # tr) = touched tr' @ touched tr"

definition attempts :: "event list \<Rightarrow> nat" where
  "attempts tr = length (attempted tr)"

fun applied :: "event list \<Rightarrow> jsval list list" where
  "applied [] = []"
| "applied (Lookup i p # tr) = applied tr"
| "applied (Apply i xs # tr) = xs # applied tr"
| "applied (Within tr' # tr) = applied tr"

definition applications :: "event list \<Rightarrow> nat" where
  "applications tr = length (applied tr)"



text \<open>The entry at position \<open>i\<close> after the active one, counted round the list.\<close>

definition ahead :: "failover \<Rightarrow> nat \<Rightarrow> entry" where
  "ahead s i = providers s ! ((activeProvider s + i) mod length (providers s))"

text \<open>A property of the instance that \<^verbatim>\<open>_switch\<close> keeps.\<close>

definition kept_by_switch :: "(failover \<Rightarrow> bool) \<Rightarrow> bool" where
  "kept_by_switch P = (\<forall>f s nxt s'. P s \<longrightarrow> switch f s = Inr (nxt, s') \<longrightarrow> P s')"

text \<open>
  The states an instance can be in: the constructor's state, and what the public and
  private methods make of a state.
\<close>

inductive reachable :: "failover \<Rightarrow> bool" where
  r_new: "reachable (new_FailoverProvider cfg)"
| r_add: "reachable s \<Longrightarrow> addProvider p rnd s = Inr (rv, s', rnd') \<Longrightarrow> reachable s'"
| r_switch: "reachable s \<Longrightarrow> switch failed s = Inr (nxt, s') \<Longrightarrow> reachable s'"
| r_get: "reachable s \<Longrightarrow> get_trap n s p = Some (g, s', tr) \<Longrightarrow> reachable s'"
| r_invoke: "reachable s \<Longrightarrow> invoke n c args s = Some (res, s', tr) \<Longrightarrow> reachable s'"

subsection \<open>The providers of the test suite\<close>

text \<open>
  The classes \<^verbatim>\<open>Cat\<close>, \<^verbatim>\<open>Dog\<close> and \<^verbatim>\<open>Cockroach\<close> of the tests: an animal has
  the data members \<^verbatim>\<open>name\<close>, \<^verbatim>\<open>sound\<close>, \<^verbatim>\<open>pace\<close>, the getters \<^verbatim>\<open>NAME\<close>
  (\<^verbatim>\<open>return this.name\<close>) and \<^verbatim>\<open>SOUND\<close> (\<^verbatim>\<open>return this.sound\<close>), and the arrow
  functions \<^verbatim>\<open>syncSpeak\<close> and \<^verbatim>\<open>speak\<close>, which hold the instance and wait \<^verbatim>\<open>pace\<close>
  milliseconds in \<^verbatim>\<open>speak\<close>. A cockroach throws in \<^verbatim>\<open>SOUND\<close>, \<^verbatim>\<open>syncSpeak\<close> and
  \<^verbatim>\<open>speak\<close>.
\<close>

definition animal :: "string \<Rightarrow> string \<Rightarrow> nat \<Rightarrow> provider" where
  "animal name sound pace p =
     (if p = ''name'' then Data (JStr name)
      else if p = ''sound'' then Data (JStr sound)
      else if p = ''pace'' then Data (JNum (int pace))
      else if p = ''NAME'' then Accessor (Forward ''name'')
      else if p = ''SOUND'' then Accessor (Forward ''sound'')
      else if p = ''syncSpeak'' then Method (\<lambda>args. \<lparr>settles = Return (JStr sound), elapsed = 0\<rparr>)
      else if p = ''speak'' then Method (\<lambda>args. \<lparr>settles = Resolve (JStr sound), elapsed = pace\<rparr>)
      else Data JUndefined)"

definition cat :: provider where
  "cat = animal ''Cat'' ''meow'' 300"

definition dog :: provider where
  "dog = animal ''Dog'' ''woof'' 300"

definition no_sound :: jsval where
  "no_sound = JError ''A cockroach does not have sound.''"

definition no_speech :: jsval where
  "no_speech = JError ''A cockroach does not speak, it flies.''"

definition cockroach :: provider where
  "cockroach p =
     (if p = ''SOUND'' then Accessor (Raise no_sound)
      else if p = ''syncSpeak'' then Method (\<lambda>args. \<lparr>settles = Throw no_speech, elapsed = 0\<rparr>)
      else if p = ''speak'' then Method (\<lambda>args. \<lparr>settles = Reject no_speech, elapsed = 0\<rparr>)
      else animal ''Cockroach'' ''...'' 300 p)"

text \<open>
  Providers whose accessors read the composite:
  \<^verbatim>\<open>{ get X () { return this.y }, get y () { throw new Error(e) } }\<close>, and the pair
  \<^verbatim>\<open>{ get f () { return this.g }, get g () { throw new Error('no g') } }\<close>,
  \<^verbatim>\<open>{ get f () { return this.g }, g: () => 'one' }\<close>.
\<close>

definition relay :: "string \<Rightarrow> provider" where
  "relay e p =
     (if p = ''X'' then Accessor (Forward ''y'')
      else if p = ''y'' then Accessor (Raise (JError e))
      else Data JUndefined)"



text \<open>
  \<^verbatim>\<open>new FailoverProvider(cfg).addProvider(p0).addProvider(p1)...\<close>, where every random
  draw of the \<open>k\<close>-th registration is \<open>k\<close>.
\<close>

fun add_all :: "provider list \<Rightarrow> nat \<Rightarrow> failover \<Rightarrow> failover" where
  "add_all [] k s = s"
| "add_all (p # ps) k s =
     (case addProvider p (\<lambda>i. k) s of
        Inl er \<Rightarrow> s
      | Inr (rv, s', rnd') \<Rightarrow> add_all ps (Suc k) s')"

definition built :: "config \<Rightarrow> provider list \<Rightarrow> failover" where
  "built cfg ps = add_all ps 0 (new_FailoverProvider cfg)"

definition defaults :: config where
  "defaults = \<lparr>cfg_retries = None, cfg_shouldRetryOn = None\<rparr>"

section \<open>Properties\<close>

subsection \<open>Unfolding the dispatch functions\<close>

lemma switch_in_range:
  assumes "activeProvider s < length (providers s)"
  shows "switch failed s =
           (let a = (if entry_id failed = entry_id (providers s ! activeProvider s)
                     then (activeProvider s + 1) mod length (providers s)
                     else activeProvider s)
            in Inr (providers s ! a, s\<lparr>activeProvider := a\<rparr>))"
  using assms by (simp add: switch_def Let_def)

lemma switch_out_of_range:
  "\<not> activeProvider s < length (providers s) \<Longrightarrow> switch failed s = Inl (undefined_read ''id'')"
  by (simp add: switch_def)

lemma switch_Inr:
  assumes "switch failed s = Inr (nxt, s')"
  shows "s' = s\<lparr>activeProvider := activeProvider s'\<rparr>"
    and "activeProvider s' < length (providers s')"
    and "nxt = providers s' ! activeProvider s'"
    and "activeProvider s < length (providers s)"
proof -
  have inr: "activeProvider s < length (providers s)"
    using assms by (cases "activeProvider s < length (providers s)") (simp_all add: switch_def)
  then show "activeProvider s < length (providers s)" .
  from inr have wrap: "Suc (activeProvider s) mod length (providers s) < length (providers s)"
    by (intro mod_less_divisor) auto
  from inr wrap assms have eq: "s' = s\<lparr>activeProvider := activeProvider s'\<rparr> \<and>
      activeProvider s' < length (providers s') \<and> nxt = providers s' ! activeProvider s'"
    by (auto simp: switch_in_range Let_def split: if_splits)
  from eq show "s' = s\<lparr>activeProvider := activeProvider s'\<rparr>" by blast
  from eq show "activeProvider s' < length (providers s')" by blast
  from eq show "nxt = providers s' ! activeProvider s'" by blast
qed

lemma proxy_0: "proxy 0 s target p r = None"
  by (simp add: proxy.simps)

lemma proxy_None:
  "reflect_get n s target p = None \<Longrightarrow> proxy (Suc n) s target p r = None"
  by (simp add: proxy.simps reflect_get_def)

lemma proxy_Value:
  "reflect_get n s target p = Some (GotValue v, s1, tr1) \<Longrightarrow>
   proxy (Suc n) s target p r = Some (PropValue v, s1, Lookup (entry_id target) p # tr1)"
  by (simp add: proxy.simps reflect_get_def)

lemma proxy_Fn:
  "reflect_get n s target p = Some (GotFn f, s1, tr1) \<Longrightarrow>
   proxy (Suc n) s target p r =
     Some (PropFn (Closure target f p r), s1, Lookup (entry_id target) p # tr1)"
  by (simp add: proxy.simps reflect_get_def)

lemma proxy_Throw:
  "reflect_get n s target p = Some (GotThrow er, s1, tr1) \<Longrightarrow>
   proxy (Suc n) s target p r =
     (if r \<le> 0 \<or> \<not> shouldRetryOn s1 er
      then Some (PropThrow er, s1, Lookup (entry_id target) p # tr1)
      else (case switch target s1 of
              Inl er' \<Rightarrow> Some (PropThrow er', s1, Lookup (entry_id target) p # tr1)
            | Inr (nxt, s2) \<Rightarrow>
                (case proxy n s2 nxt p (r - 1) of
                   None \<Rightarrow> None
                 | Some (pr, s3, tr) \<Rightarrow>
                     Some (pr, s3, Lookup (entry_id target) p # tr1 @ tr))))"
  by (simp add: proxy.simps reflect_get_def)


lemma invoke_None:
  "apply_prop n (c_prop c) args s = None \<Longrightarrow> invoke (Suc n) c args s = None"
  by (simp add: invoke.simps apply_prop_def)

lemma invoke_Return:
  "apply_prop n (c_prop c) args s = Some (Return v, s1, tr1) \<Longrightarrow>
   invoke (Suc n) c args s = Some (Returned v, s1, Apply (entry_id (c_target c)) args # tr1)"
  by (simp add: invoke.simps apply_prop_def)

lemma invoke_Resolve:
  "apply_prop n (c_prop c) args s = Some (Resolve v, s1, tr1) \<Longrightarrow>
   invoke (Suc n) c args s = Some (Resolved v, s1, Apply (entry_id (c_target c)) args # tr1)"
  by (simp add: invoke.simps apply_prop_def)

lemma invoke_Pending:
  "apply_prop n (c_prop c) args s = Some (Pending, s1, tr1) \<Longrightarrow>
   invoke (Suc n) c args s = Some (Unsettled, s1, Apply (entry_id (c_target c)) args # tr1)"
  by (simp add: invoke.simps apply_prop_def)

lemma invoke_failure:
  assumes "apply_prop n (c_prop c) args s = Some ((if async then Reject er else Throw er), s1, tr1)"
  shows "invoke (Suc n) c args s =
     (case (if c_retries c \<le> 0 \<or> \<not> shouldRetryOn s1 er
            then Some (Thrown er, s1, Apply (entry_id (c_target c)) args # tr1)
            else (case switch (c_target c) s1 of
                    Inl er' \<Rightarrow> Some (Thrown er', s1, Apply (entry_id (c_target c)) args # tr1)
                  | Inr (nxt, s2) \<Rightarrow>
                      (case reattempt n s2 nxt (c_p c) (c_retries c - 1) args of
                         None \<Rightarrow> None
                       | Some (res, s3, tr) \<Rightarrow>
                           Some (res, s3, Apply (entry_id (c_target c)) args # tr1 @ tr))))
      of None \<Rightarrow> None
       | Some (res, s', tr) \<Rightarrow> Some ((if async then in_promise res else res), s', tr))"
proof -
  from assms have inner:
    "(case c_prop c of
        Native f \<Rightarrow> Some (settles (f args), s, [])
      | Composite c' \<Rightarrow>
          (case invoke n c' args s of
             None \<Rightarrow> None
           | Some (res, s1, tr1) \<Rightarrow> Some (settle_of res, s1, [Within tr1])))
     = Some ((if async then Reject er else Throw er), s1, tr1)"
    by (simp add: apply_prop_def)
  show ?thesis
    by (subst invoke.simps, subst inner)
       (cases async; auto simp: reattempt_def Let_def
          split: sum.splits prod.splits property.splits option.splits)
qed

lemma settle_cases:
  obtains (ret) v where "st = Return v"
  | (res) v where "st = Resolve v"
  | (pend) "st = Pending"
  | (fail) er async where "st = (if async then Reject er else Throw er)"
proof (cases st)
  case (Throw er)
  then show ?thesis using fail[of False er] by simp
next
  case (Reject er)
  then show ?thesis using fail[of True er] by simp
qed (use ret res pend in auto)

subsection \<open>The recursion budget\<close>

text \<open>A dispatch that returns within a budget returns the same with any larger one.\<close>

lemma get_mono_aux:
  "(\<forall>s t p r x. proxy n s t p r = Some x \<longrightarrow> proxy (n + k) s t p r = Some x)
   \<and> (\<forall>s a y. access n s a = Some y \<longrightarrow> access (n + k) s a = Some y)
   \<and> (\<forall>s p z. get_trap n s p = Some z \<longrightarrow> get_trap (n + k) s p = Some z)"
proof (induction n)
  case 0
  show ?case by (simp add: proxy.simps access.simps get_trap.simps)
next
  case (Suc n)
  then have ihp: "\<And>s t p r x. proxy n s t p r = Some x \<Longrightarrow> proxy (n + k) s t p r = Some x"
    and iha: "\<And>s a y. access n s a = Some y \<Longrightarrow> access (n + k) s a = Some y"
    and ihg: "\<And>s p z. get_trap n s p = Some z \<Longrightarrow> get_trap (n + k) s p = Some z"
    by blast+
  have p: "proxy (Suc n + k) s t p r = Some x" if "proxy (Suc n) s t p r = Some x" for s t p r x
    using that
    by (auto simp: proxy.simps ihp iha
             split: member.splits option.splits got.splits prod.splits if_splits sum.splits)
  have a: "access (Suc n + k) s a = Some y" if "access (Suc n) s a = Some y" for s a y
    using that
    by (cases a) (auto simp: access.simps ihg iha split: option.splits prod.splits)
  have g: "get_trap (Suc n + k) s p = Some z" if "get_trap (Suc n) s p = Some z" for s p z
    using that by (auto simp: get_trap.simps ihp split: if_splits)
  from p a g show ?case by blast
qed

lemma proxy_mono:
  assumes "proxy n s t p r = Some x" and "n \<le> m"
  shows "proxy m s t p r = Some x"
proof -
  from assms(2) obtain k where "m = n + k" by (auto simp: le_iff_add)
  with assms(1) get_mono_aux[of n k] show ?thesis by blast
qed

lemma access_mono:
  assumes "access n s a = Some y" and "n \<le> m"
  shows "access m s a = Some y"
proof -
  from assms(2) obtain k where "m = n + k" by (auto simp: le_iff_add)
  with assms(1) get_mono_aux[of n k] show ?thesis by blast
qed

lemma get_trap_mono:
  assumes "get_trap n s p = Some z" and "n \<le> m"
  shows "get_trap m s p = Some z"
proof -
  from assms(2) obtain k where "m = n + k" by (auto simp: le_iff_add)
  with assms(1) get_mono_aux[of n k] show ?thesis by blast
qed

lemma reflect_get_mono:
  "reflect_get n s t p = Some y \<Longrightarrow> n \<le> m \<Longrightarrow> reflect_get m s t p = Some y"
  by (auto simp: reflect_get_def split: member.splits intro: access_mono)

lemma invoke_mono_aux:
  "invoke n c args s = Some x \<Longrightarrow> invoke (n + k) c args s = Some x"
proof (induction n arbitrary: c s x)
  case 0
  then show ?case by (simp add: invoke.simps)
next
  case (Suc n)
  have ap: "apply_prop (n + k) f args t = Some y" if "apply_prop n f args t = Some y" for f t y
    using that by (auto simp: apply_prop_def Suc.IH split: func.splits option.splits)
  have re: "reattempt (n + k) t e q r args = Some y" if "reattempt n t e q r args = Some y"
    for t e q r y
  proof -
    from that obtain pr t1 tr1 where px: "proxy n t e q r = Some (pr, t1, tr1)"
      by (auto simp: reattempt_def split: option.splits)
    then have px': "proxy (n + k) t e q r = Some (pr, t1, tr1)"
      by (rule proxy_mono) simp
    show ?thesis
    proof (cases pr)
      case (PropFn c')
      with that px obtain z where iv: "invoke n c' args t1 = Some z"
        by (auto simp: reattempt_def split: option.splits)
      then have "invoke (n + k) c' args t1 = Some z" by (rule Suc.IH)
      with that px px' iv PropFn show ?thesis by (simp add: reattempt_def)
    qed (use that px px' in \<open>simp_all add: reattempt_def\<close>)
  qed
  obtain st s1 tr1 where a0: "apply_prop n (c_prop c) args s = Some (st, s1, tr1)"
    using Suc.prems by (cases "apply_prop n (c_prop c) args s") (auto simp: invoke_None)
  then have a1: "apply_prop (n + k) (c_prop c) args s = Some (st, s1, tr1)" by (rule ap)
  show ?case
  proof (cases rule: settle_cases[of st])
    case (ret v)
    with a0 a1 Suc.prems show ?thesis by (simp add: invoke_Return)
  next
    case (res v)
    with a0 a1 Suc.prems show ?thesis by (simp add: invoke_Resolve)
  next
    case pend
    with a0 a1 Suc.prems show ?thesis by (simp add: invoke_Pending)
  next
    case (fail er async)
    note u0 = invoke_failure[OF a0[unfolded fail]]
    note u1 = invoke_failure[OF a1[unfolded fail]]
    show ?thesis
    proof (cases "c_retries c \<le> 0 \<or> \<not> shouldRetryOn s1 er")
      case True
      with Suc.prems u0 u1 show ?thesis by simp
    next
      case False
      show ?thesis
      proof (cases "switch (c_target c) s1")
        case (Inl er')
        with False Suc.prems u0 u1 show ?thesis by simp
      next
        case (Inr nx)
        obtain nxt s2 where nx: "nx = (nxt, s2)" by (cases nx)
        from Suc.prems u0 False Inr nx obtain y where
          r0: "reattempt n s2 nxt (c_p c) (c_retries c - 1) args = Some y"
          by (auto split: option.splits)
        then have "reattempt (n + k) s2 nxt (c_p c) (c_retries c - 1) args = Some y" by (rule re)
        with r0 Suc.prems u0 u1 False Inr nx show ?thesis by simp
      qed
    qed
  qed
qed

lemma invoke_mono:
  assumes "invoke n c args s = Some x" and "n \<le> m"
  shows "invoke m c args s = Some x"
proof -
  from assms(2) obtain k where "m = n + k" by (auto simp: le_iff_add)
  with assms(1) invoke_mono_aux[of n c args s x k] show ?thesis by blast
qed

lemma dispatch_mono:
  assumes "dispatch_with h n s t p r args = Some x" and "n \<le> m"
  shows "dispatch_with h m s t p r args = Some x"
proof -
  from assms(1) obtain pr s1 tr1 where px: "proxy n s t p r = Some (pr, s1, tr1)"
    by (auto simp: dispatch_with_def split: option.splits)
  then have px': "proxy m s t p r = Some (pr, s1, tr1)" using assms(2) by (rule proxy_mono)
  show ?thesis
  proof (cases pr)
    case (PropFn c)
    with assms(1) px obtain z where iv: "invoke n c args s1 = Some z"
      by (auto simp: dispatch_with_def split: option.splits)
    then have "invoke m c args s1 = Some z" using assms(2) by (rule invoke_mono)
    with assms(1) px px' iv PropFn show ?thesis by (simp add: dispatch_with_def)
  qed (use assms(1) px px' in \<open>simp_all add: dispatch_with_def\<close>)
qed

subsection \<open>What every dispatch keeps\<close>

lemma attempted_append: "attempted (xs @ ys) = attempted xs @ attempted ys"
  by (induction xs rule: attempted.induct) simp_all

lemma applied_append: "applied (xs @ ys) = applied xs @ applied ys"
  by (induction xs rule: applied.induct) simp_all

lemma touched_append: "touched (xs @ ys) = touched xs @ touched ys"
  by (induction xs rule: touched.induct) simp_all

text \<open>
  For a property \<open>P\<close> of the instance that \<^verbatim>\<open>_switch\<close> keeps: every read keeps it, and
  a read with \<open>r\<close> retries makes at least one and at most \<open>1 + r\<close> attempts of its own, the
  arrow function it returns holding the retries that are left.
\<close>

lemma get_facts_aux:
  assumes kept: "kept_by_switch P"
  shows "(\<forall>s t p r pr s' tr. P s \<longrightarrow> proxy n s t p r = Some (pr, s', tr) \<longrightarrow>
            P s' \<and> length (attempted tr) \<le> Suc (nat r) \<and> attempted tr \<noteq> [] \<and> applied tr = []
            \<and> (\<forall>c. pr = PropFn c \<longrightarrow> int (length (attempted tr)) + c_retries c = 1 + r))
       \<and> (\<forall>s a g s' tr. P s \<longrightarrow> access n s a = Some (g, s', tr) \<longrightarrow>
            P s' \<and> attempted tr = [] \<and> applied tr = [])
       \<and> (\<forall>s p pr s' tr. P s \<longrightarrow> get_trap n s p = Some (pr, s', tr) \<longrightarrow>
            P s' \<and> length (attempted tr) \<le> Suc (nat (retries s)) \<and> applied tr = []
            \<and> (\<forall>c. pr = PropFn c \<longrightarrow>
                  int (length (attempted tr)) + c_retries c = 1 + retries s \<and> attempted tr \<noteq> []))"
proof (induction n)
  case 0
  show ?case by (simp add: proxy.simps access.simps get_trap.simps)
next
  case (Suc n)
  note ihp = Suc.IH[THEN conjunct1, rule_format]
  note iha = Suc.IH[THEN conjunct2, THEN conjunct1, rule_format]
  note ihg = Suc.IH[THEN conjunct2, THEN conjunct2, rule_format]
  have rg: "P s1 \<and> attempted tr1 = [] \<and> applied tr1 = []"
    if "P s" "reflect_get n s t p = Some (g, s1, tr1)" for s t p g s1 tr1
    using that iha by (auto simp: reflect_get_def split: member.splits)
  have p: "P s' \<and> length (attempted tr) \<le> Suc (nat r) \<and> attempted tr \<noteq> [] \<and> applied tr = []
            \<and> (\<forall>c. pr = PropFn c \<longrightarrow> int (length (attempted tr)) + c_retries c = 1 + r)"
    if P0: "P s" and run: "proxy (Suc n) s t p r = Some (pr, s', tr)" for s t p r pr s' tr
  proof -
    obtain g s1 tr1 where g0: "reflect_get n s t p = Some (g, s1, tr1)"
      using run by (cases "reflect_get n s t p") (auto simp: proxy_None)
    from rg[OF P0 g0] have P1: "P s1" and t1: "attempted tr1 = []" "applied tr1 = []" by blast+
    show ?thesis
    proof (cases g)
      case (GotValue v)
      with g0 run P1 t1 show ?thesis by (auto simp: proxy_Value)
    next
      case (GotFn f)
      with g0 run P1 t1 show ?thesis by (auto simp: proxy_Fn)
    next
      case (GotThrow er)
      note u = proxy_Throw[OF g0[unfolded GotThrow], of r]
      show ?thesis
      proof (cases "r \<le> 0 \<or> \<not> shouldRetryOn s1 er")
        case True
        with u run P1 t1 show ?thesis by auto
      next
        case False
        show ?thesis
        proof (cases "switch t s1")
          case (Inl er')
          with False u run P1 t1 show ?thesis by auto
        next
          case (Inr nx)
          obtain nxt s2 where nx: "nx = (nxt, s2)" by (cases nx)
          from kept P1 Inr nx have P2: "P s2" unfolding kept_by_switch_def by blast
          from run u False Inr nx obtain pr2 s3 tr2 where
            rec: "proxy n s2 nxt p (r - 1) = Some (pr2, s3, tr2)"
            and out: "pr = pr2" "s' = s3" "tr = Lookup (entry_id t) p # tr1 @ tr2"
            by (auto split: option.splits)
          from ihp[OF P2 rec] out t1 False show ?thesis
            by (auto simp: attempted_append applied_append)
        qed
      qed
    qed
  qed
  have g: "P s' \<and> length (attempted tr) \<le> Suc (nat (retries s)) \<and> applied tr = []
            \<and> (\<forall>c. pr = PropFn c \<longrightarrow>
                  int (length (attempted tr)) + c_retries c = 1 + retries s \<and> attempted tr \<noteq> [])"
    if P0: "P s" and run: "get_trap (Suc n) s p = Some (pr, s', tr)" for s p pr s' tr
  proof (cases "activeProvider s < length (providers s)")
    case True
    with run have "proxy n s (providers s ! activeProvider s) p (retries s) = Some (pr, s', tr)"
      by (simp add: get_trap.simps)
    from ihp[OF P0 this] show ?thesis by blast
  next
    case False
    with run P0 show ?thesis by (auto simp: get_trap.simps split: if_splits)
  qed
  have a: "P s' \<and> attempted tr = [] \<and> applied tr = []"
    if P0: "P s" and run: "access (Suc n) s a = Some (g, s', tr)" for s a g s' tr
  proof (cases a)
    case (Yield v)
    with run P0 show ?thesis by (auto simp: access.simps)
  next
    case (Raise er)
    with run P0 show ?thesis by (auto simp: access.simps)
  next
    case (Forward q)
    with run obtain pr s1 tr1 where gt: "get_trap n s q = Some (pr, s1, tr1)"
      and out: "s' = s1" "tr = [Within tr1]"
      by (auto simp: access.simps split: option.splits)
    from ihg[OF P0 gt] out show ?thesis by simp
  next
    case (ReadThis q k)
    with run obtain pr s1 tr1 g2 s2 tr2 where gt: "get_trap n s q = Some (pr, s1, tr1)"
      and ac: "access n s1 (k (view pr)) = Some (g2, s2, tr2)"
      and out: "s' = s2" "tr = Within tr1 # tr2"
      by (auto simp: access.simps split: option.splits)
    from ihg[OF P0 gt] have "P s1" by blast
    from iha[OF this ac] out show ?thesis by simp
  qed
  from p a g show ?case by blast
qed

lemma proxy_facts:
  assumes "kept_by_switch P" and "P s" and "proxy n s t p r = Some (pr, s', tr)"
  shows "P s' \<and> length (attempted tr) \<le> Suc (nat r) \<and> attempted tr \<noteq> [] \<and> applied tr = []
            \<and> (\<forall>c. pr = PropFn c \<longrightarrow> int (length (attempted tr)) + c_retries c = 1 + r)"
  by (rule get_facts_aux[OF assms(1), THEN conjunct1, rule_format, OF assms(2,3)])

lemma access_facts:
  assumes "kept_by_switch P" and "P s" and "access n s a = Some (g, s', tr)"
  shows "P s' \<and> attempted tr = [] \<and> applied tr = []"
  by (rule get_facts_aux[OF assms(1), THEN conjunct2, THEN conjunct1, rule_format, OF assms(2,3)])

lemma get_trap_facts:
  assumes "kept_by_switch P" and "P s" and "get_trap n s p = Some (pr, s', tr)"
  shows "P s' \<and> length (attempted tr) \<le> Suc (nat (retries s)) \<and> applied tr = []
            \<and> (\<forall>c. pr = PropFn c \<longrightarrow>
                  int (length (attempted tr)) + c_retries c = 1 + retries s \<and> attempted tr \<noteq> [])"
  by (rule get_facts_aux[OF assms(1), THEN conjunct2, THEN conjunct2, rule_format, OF assms(2,3)])

text \<open>
  The arrow function with \<open>r\<close> retries makes at most \<open>r\<close> further attempts and at most
  \<open>1 + r\<close> applications of its own, each with the arguments it was called with; a
  dispatch with \<open>r\<close> retries makes at most \<open>1 + r\<close> of either.
\<close>

lemma invoke_facts_aux:
  assumes kept: "kept_by_switch P"
  shows "(\<forall>c s res s' tr. P s \<longrightarrow> invoke n c args s = Some (res, s', tr) \<longrightarrow>
            P s' \<and> length (attempted tr) \<le> nat (c_retries c)
            \<and> length (applied tr) \<le> Suc (nat (c_retries c)) \<and> (\<forall>xs\<in>set (applied tr). xs = args))
       \<and> (\<forall>h s t p r res s' tr. P s \<longrightarrow> dispatch_with h n s t p r args = Some (res, s', tr) \<longrightarrow>
            P s' \<and> length (attempted tr) \<le> Suc (nat r) \<and> attempted tr \<noteq> []
            \<and> length (applied tr) \<le> Suc (nat r) \<and> (\<forall>xs\<in>set (applied tr). xs = args))"
proof (induction n)
  case 0
  show ?case by (simp add: invoke.simps dispatch_with_def proxy.simps)
next
  case (Suc n)
  note ihi = Suc.IH[THEN conjunct1, rule_format]
  note ihd = Suc.IH[THEN conjunct2, rule_format]
  have ap: "P s1 \<and> attempted tr1 = [] \<and> applied tr1 = []"
    if "P s" "apply_prop n f args s = Some (st, s1, tr1)" for s f st s1 tr1
  proof (cases f)
    case (Native g)
    with that show ?thesis by (simp add: apply_prop_def)
  next
    case (Composite c')
    with that obtain res tr0 where iv: "invoke n c' args s = Some (res, s1, tr0)"
      and out: "tr1 = [Within tr0]"
      by (auto simp: apply_prop_def split: option.splits)
    from ihi[OF that(1) iv] out show ?thesis by simp
  qed
  have i: "P s' \<and> length (attempted tr) \<le> nat (c_retries c)
            \<and> length (applied tr) \<le> Suc (nat (c_retries c)) \<and> (\<forall>xs\<in>set (applied tr). xs = args)"
    if P0: "P s" and run: "invoke (Suc n) c args s = Some (res, s', tr)" for c s res s' tr
  proof -
    obtain st s1 tr1 where a0: "apply_prop n (c_prop c) args s = Some (st, s1, tr1)"
      using run by (cases "apply_prop n (c_prop c) args s") (auto simp: invoke_None)
    from ap[OF P0 a0] have P1: "P s1" and t1: "attempted tr1 = []" "applied tr1 = []" by blast+
    show ?thesis
    proof (cases rule: settle_cases[of st])
      case (ret v)
      with a0 run P1 t1 show ?thesis by (auto simp: invoke_Return)
    next
      case (res v)
      with a0 run P1 t1 show ?thesis by (auto simp: invoke_Resolve)
    next
      case pend
      with a0 run P1 t1 show ?thesis by (auto simp: invoke_Pending)
    next
      case (fail er async)
      note u = invoke_failure[OF a0[unfolded fail]]
      show ?thesis
      proof (cases "c_retries c \<le> 0 \<or> \<not> shouldRetryOn s1 er")
        case True
        with u run P1 t1 show ?thesis by auto
      next
        case False
        show ?thesis
        proof (cases "switch (c_target c) s1")
          case (Inl er')
          with False u run P1 t1 show ?thesis by auto
        next
          case (Inr nx)
          obtain nxt s2 where nx: "nx = (nxt, s2)" by (cases nx)
          from kept P1 Inr nx have P2: "P s2" unfolding kept_by_switch_def by blast
          from run u False Inr nx obtain res2 s3 tr2 where
            rec: "reattempt n s2 nxt (c_p c) (c_retries c - 1) args = Some (res2, s3, tr2)"
            and out: "s' = s3" "tr = Apply (entry_id (c_target c)) args # tr1 @ tr2"
            by (auto split: option.splits)
          from rec have "dispatch_with Returned n s2 nxt (c_p c) (c_retries c - 1) args
                           = Some (res2, s3, tr2)"
            by (simp add: reattempt_def dispatch_with_def)
          from ihd[OF P2 this] out t1 False show ?thesis
            by (auto simp: attempted_append applied_append)
        qed
      qed
    qed
  qed
  have d: "P s' \<and> length (attempted tr) \<le> Suc (nat r) \<and> attempted tr \<noteq> []
            \<and> length (applied tr) \<le> Suc (nat r) \<and> (\<forall>xs\<in>set (applied tr). xs = args)"
    if P0: "P s" and run: "dispatch_with h (Suc n) s t p r args = Some (res, s', tr)"
    for h s t p r res s' tr
  proof -
    from run obtain pr s1 tr1 where px: "proxy (Suc n) s t p r = Some (pr, s1, tr1)"
      by (auto simp: dispatch_with_def split: option.splits)
    from proxy_facts[OF kept P0 px]
    have P1: "P s1" and b1: "length (attempted tr1) \<le> Suc (nat r)" "attempted tr1 \<noteq> []"
      "applied tr1 = []"
      and cl: "\<forall>c. pr = PropFn c \<longrightarrow> int (length (attempted tr1)) + c_retries c = 1 + r"
      by blast+
    show ?thesis
    proof (cases pr)
      case (PropValue v)
      with run px P1 b1 show ?thesis by (auto simp: dispatch_with_def)
    next
      case (PropThrow er)
      with run px P1 b1 show ?thesis by (auto simp: dispatch_with_def)
    next
      case (PropFn c)
      with run px obtain tr2 where iv: "invoke (Suc n) c args s1 = Some (res, s', tr2)"
        and out: "tr = tr1 @ tr2"
        by (auto simp: dispatch_with_def split: option.splits)
      from PropFn cl have cr: "int (length (attempted tr1)) + c_retries c = 1 + r" by simp
      from b1(2) have "1 \<le> length (attempted tr1)" by (cases "attempted tr1") auto
      with i[OF P1 iv] out b1 cr show ?thesis
        by (auto simp: attempted_append applied_append)
    qed
  qed
  from i d show ?case by blast
qed

lemma invoke_facts:
  assumes "kept_by_switch P" and "P s" and "invoke n c args s = Some (res, s', tr)"
  shows "P s' \<and> length (attempted tr) \<le> nat (c_retries c)
            \<and> length (applied tr) \<le> Suc (nat (c_retries c)) \<and> (\<forall>xs\<in>set (applied tr). xs = args)"
  by (rule invoke_facts_aux[OF assms(1), THEN conjunct1, rule_format, OF assms(2,3)])

lemma dispatch_facts:
  assumes "kept_by_switch P" and "P s" and "dispatch_with h n s t p r args = Some (res, s', tr)"
  shows "P s' \<and> length (attempted tr) \<le> Suc (nat r) \<and> attempted tr \<noteq> []
            \<and> length (applied tr) \<le> Suc (nat r) \<and> (\<forall>xs\<in>set (applied tr). xs = args)"
  by (rule invoke_facts_aux[OF assms(1), THEN conjunct2, rule_format, OF assms(2,3)])

lemma reattempt_dispatch:
  "reattempt n s target p r args = dispatch_with Returned n s target p r args"
  by (simp add: reattempt_def dispatch_with_def)

lemma call_dispatch:
  "activeProvider s < length (providers s) \<Longrightarrow>
   call (Suc n) s p args =
     (case proxy n s (providers s ! activeProvider s) p (retries s) of
        None \<Rightarrow> None
      | Some (PropThrow er, s', tr) \<Rightarrow> Some (Thrown er, s', tr)
      | Some (PropValue v, s', tr) \<Rightarrow> Some (Thrown (JError (p @ '' is not a function'')), s', tr)
      | Some (PropFn c, s', tr) \<Rightarrow>
          (case invoke (Suc n) c args s' of
             None \<Rightarrow> None
           | Some (res, s'', tr') \<Rightarrow> Some (res, s'', tr @ tr')))"
  by (simp add: call_def get_trap.simps)

lemma call_facts:
  assumes kept: "kept_by_switch P" and P0: "P s" and run: "call n s p args = Some (res, s', tr)"
  shows "P s' \<and> length (attempted tr) \<le> Suc (nat (retries s))
         \<and> length (applied tr) \<le> Suc (nat (retries s)) \<and> (\<forall>xs\<in>set (applied tr). xs = args)"
proof -
  from run obtain pr s1 tr1 where gt: "get_trap n s p = Some (pr, s1, tr1)"
    by (auto simp: call_def split: option.splits)
  from get_trap_facts[OF kept P0 gt]
  have P1: "P s1" and b1: "length (attempted tr1) \<le> Suc (nat (retries s))" "applied tr1 = []"
    and cl: "\<forall>c. pr = PropFn c \<longrightarrow>
               int (length (attempted tr1)) + c_retries c = 1 + retries s \<and> attempted tr1 \<noteq> []"
    by blast+
  show ?thesis
  proof (cases pr)
    case (PropValue v)
    with run gt P1 b1 show ?thesis by (auto simp: call_def)
  next
    case (PropThrow er)
    with run gt P1 b1 show ?thesis by (auto simp: call_def)
  next
    case (PropFn c)
    with run gt obtain tr2 where iv: "invoke n c args s1 = Some (res, s', tr2)"
      and out: "tr = tr1 @ tr2"
      by (auto simp: call_def split: option.splits)
    from PropFn cl have cr: "int (length (attempted tr1)) + c_retries c = 1 + retries s"
      and ne: "attempted tr1 \<noteq> []" by simp_all
    from ne have "1 \<le> length (attempted tr1)" by (cases "attempted tr1") auto
    with invoke_facts[OF kept P1 iv] out b1 cr show ?thesis
      by (auto simp: attempted_append applied_append)
  qed
qed

subsection \<open>One attempt on a member that does not read the composite\<close>

lemma reflect_get_Method:
  "provider target p = Method f \<Longrightarrow> reflect_get n s target p = Some (GotFn (Native f), s, [])"
  by (simp add: reflect_get_def)

lemma reflect_get_Data:
  "provider target p = Data v \<Longrightarrow> reflect_get n s target p = Some (GotValue v, s, [])"
  by (simp add: reflect_get_def)

lemma reflect_get_Raise:
  "provider target p = Accessor (Raise er) \<Longrightarrow>
   reflect_get (Suc n) s target p = Some (GotThrow er, s, [])"
  by (simp add: reflect_get_def access.simps)

lemma failure_of_cases:
  assumes "failure_of m args = Some er"
  obtains (getter) "m = Accessor (Raise er)"
  | (applied) f async where "m = Method f" "settles (f args) = (if async then Reject er else Throw er)"
proof (cases m)
  case (Data v)
  with assms show ?thesis by simp
next
  case (Method f)
  with assms applied[of f] show ?thesis
    by (cases "settles (f args)") (auto intro: that split: if_splits)
next
  case (Accessor a)
  with assms getter show ?thesis by (cases a) auto
qed


lemma dispatch_stop:
  assumes "failure_of (provider target p) args = Some er"
    and "r \<le> 0 \<or> \<not> shouldRetryOn s er"
  shows "\<exists>res tr. dispatch_with h (Suc (Suc n)) s target p r args = Some (res, s, tr)
                 \<and> result_error res = Some er \<and> attempted tr = [entry_id target]
                 \<and> touched tr = [entry_id target] \<and> (\<forall>xs\<in>set (applied tr). xs = args)"
  using assms(1)
proof (cases rule: failure_of_cases)
  case getter
  from assms(2) have "proxy (Suc (Suc n)) s target p r
                        = Some (PropThrow er, s, [Lookup (entry_id target) p])"
    by (auto simp: proxy_Throw[OF reflect_get_Raise[OF getter]])
  then show ?thesis by (simp add: dispatch_with_def)
next
  case (applied f async)
  let ?c = "Closure target (Native f) p r"
  have px: "proxy (Suc (Suc n)) s target p r = Some (PropFn ?c, s, [Lookup (entry_id target) p])"
    by (simp add: proxy_Fn reflect_get_Method[OF applied(1)])
  have ap: "apply_prop (Suc n) (c_prop ?c) args s
              = Some ((if async then Reject er else Throw er), s, [])"
    using applied(2) by (simp add: apply_prop_def)
  from assms(2) have "invoke (Suc (Suc n)) ?c args s
      = Some ((if async then Rejected er else Thrown er), s, [Apply (entry_id target) args])"
    by (auto simp: invoke_failure[OF ap])
  with px show ?thesis by (simp add: dispatch_with_def)
qed

lemma dispatch_retry:
  assumes "failure_of (provider target p) args = Some er"
    and "0 < r" and "shouldRetryOn s er"
    and "switch target s = Inr (nxt, s1)"
  shows "\<exists>h' wrap pre.
           (wrap = id \<or> wrap = in_promise)
           \<and> attempted pre = [entry_id target] \<and> touched pre = [entry_id target]
           \<and> (\<forall>xs\<in>set (applied pre). xs = args)
           \<and> (\<forall>m res s' tr.
                 dispatch_with h' m s1 nxt p (r - 1) args = Some (res, s', tr) \<longrightarrow>
                 dispatch_with h (Suc m) s target p r args = Some (wrap res, s', pre @ tr))"
  using assms(1)
proof (cases rule: failure_of_cases)
  case getter
  let ?pre = "[Lookup (entry_id target) p]"
  have "dispatch_with h (Suc m) s target p r args = Some (id res, s', ?pre @ tr)"
    if run: "dispatch_with h m s1 nxt p (r - 1) args = Some (res, s', tr)" for m res s' tr
  proof -
    from run obtain pr s2 tr1 where px: "proxy m s1 nxt p (r - 1) = Some (pr, s2, tr1)"
      by (auto simp: dispatch_with_def split: option.splits)
    then obtain m' where m: "m = Suc m'" by (cases m) (auto simp: proxy_0)
    from assms(2-4) px have outer:
      "proxy (Suc m) s target p r = Some (pr, s2, Lookup (entry_id target) p # tr1)"
      unfolding m by (simp add: proxy_Throw[OF reflect_get_Raise[OF getter]])
    show ?thesis
    proof (cases pr)
      case (PropFn c)
      with run px obtain tr2 where iv: "invoke m c args s2 = Some (res, s', tr2)"
        and out: "tr = tr1 @ tr2"
        by (auto simp: dispatch_with_def split: option.splits)
      from iv have "invoke (Suc m) c args s2 = Some (res, s', tr2)" by (rule invoke_mono) simp
      with outer PropFn out show ?thesis by (simp add: dispatch_with_def)
    qed (use run px outer in \<open>auto simp: dispatch_with_def\<close>)
  qed
  then show ?thesis
    by (intro exI[of _ h] exI[of _ id] exI[of _ ?pre]) simp
next
  case (applied f async)
  let ?c = "Closure target (Native f) p r"
  let ?pre = "[Lookup (entry_id target) p, Apply (entry_id target) args]"
  let ?wrap = "if async then in_promise else id"
  have "dispatch_with h (Suc m) s target p r args = Some (?wrap res, s', ?pre @ tr)"
    if run: "dispatch_with Returned m s1 nxt p (r - 1) args = Some (res, s', tr)" for m res s' tr
  proof -
    have px: "proxy (Suc m) s target p r = Some (PropFn ?c, s, [Lookup (entry_id target) p])"
      by (simp add: proxy_Fn reflect_get_Method[OF applied(1)])
    have ap: "apply_prop m (c_prop ?c) args s
                = Some ((if async then Reject er else Throw er), s, [])"
      using applied(2) by (simp add: apply_prop_def)
    from assms(2-4) run have "invoke (Suc m) ?c args s
        = Some (?wrap res, s', Apply (entry_id target) args # tr)"
      by (auto simp: invoke_failure[OF ap] reattempt_dispatch)
    with px show ?thesis by (simp add: dispatch_with_def)
  qed
  then show ?thesis
    by (intro exI[of _ Returned] exI[of _ ?wrap] exI[of _ ?pre]) auto
qed

subsection \<open>Runs of failing providers\<close>

lemma ahead_current:
  "activeProvider s < length (providers s) \<Longrightarrow> ahead s 0 = providers s ! activeProvider s"
  by (simp add: ahead_def)

lemma ahead_moved:
  "ahead (s\<lparr>activeProvider := Suc (activeProvider s) mod length (providers s)\<rparr>) i = ahead s (Suc i)"
  by (simp add: ahead_def mod_Suc_eq mod_add_left_eq)

lemma switch_current:
  assumes "activeProvider s < length (providers s)"
  shows "switch (ahead s 0) s =
           Inr (ahead s 1, s\<lparr>activeProvider := Suc (activeProvider s) mod length (providers s)\<rparr>)"
  using assms by (simp add: switch_in_range ahead_def Let_def)

lemma fails_retryably_moved:
  "fails_retryably (s\<lparr>activeProvider := a\<rparr>) e p args = fails_retryably s e p args"
  by (simp add: fails_retryably_def split: option.splits)


lemma result_error_wrap:
  "wrap = id \<or> wrap = in_promise \<Longrightarrow> result_error (wrap res) = result_error res"
  by (cases res) auto


lemma dispatch_exhaust:
  assumes "activeProvider s < length (providers s)"
    and "k = nat r" and "0 \<le> r"
    and "\<forall>i\<le>k. fails_retryably s (ahead s i) p args"
  shows "\<exists>n res tr. dispatch_with h n s (ahead s 0) p r args
             = Some (res, s\<lparr>activeProvider := (activeProvider s + k) mod length (providers s)\<rparr>, tr)
           \<and> result_error res = failure_of (provider (ahead s k) p) args
           \<and> result_error res \<noteq> None
           \<and> attempted tr = map (\<lambda>i. entry_id (ahead s i)) [0..<Suc k]
           \<and> touched tr = attempted tr
           \<and> (\<forall>xs\<in>set (applied tr). xs = args)"
  using assms
proof (induction k arbitrary: s r h)
  case 0
  from "0.prems"(4) obtain er where
    er: "failure_of (provider (ahead s 0) p) args = Some er"
    by (auto simp: fails_retryably_def split: option.splits)
  from "0.prems"(2,3) have "r \<le> 0 \<or> \<not> shouldRetryOn s er" by simp
  from dispatch_stop[OF er this, of h 0 ] "0.prems"(1) er
  show ?case by (intro exI[of _ "Suc (Suc 0)"]) auto
next
  case (Suc k)
  let ?s1 = "s\<lparr>activeProvider := Suc (activeProvider s) mod length (providers s)\<rparr>"
  from Suc.prems(4) have "fails_retryably s (ahead s 0) p args" by blast
  then obtain er where er: "failure_of (provider (ahead s 0) p) args = Some er" "shouldRetryOn s er"
    by (auto simp: fails_retryably_def split: option.splits)
  from Suc.prems(2) have pos: "0 < r" by simp
  from Suc.prems(1) have len: "0 < length (providers s)" by auto
  from dispatch_retry[where h = h, OF er(1) pos er(2) switch_current[OF Suc.prems(1)]]
  obtain h' wrap pre where
    wrap: "wrap = id \<or> wrap = in_promise"
    and pre: "attempted pre = [entry_id (ahead s 0)]" "touched pre = [entry_id (ahead s 0)]"
      "\<forall>xs\<in>set (applied pre). xs = args"
    and step: "\<And>m res s' tr.
                 dispatch_with h' m ?s1 (ahead s 1) p (r - 1) args = Some (res, s', tr) \<Longrightarrow>
                 dispatch_with h (Suc m) s (ahead s 0) p r args = Some (wrap res, s', pre @ tr)"
    by blast
  have nxt: "ahead s 1 = ahead ?s1 0"
    by (simp add: ahead_moved)
  have "\<exists>n res tr. dispatch_with h' n ?s1 (ahead ?s1 0) p (r - 1) args
             = Some (res, ?s1\<lparr>activeProvider := (activeProvider ?s1 + k) mod length (providers ?s1)\<rparr>, tr)
           \<and> result_error res = failure_of (provider (ahead ?s1 k) p) args
           \<and> result_error res \<noteq> None
           \<and> attempted tr = map (\<lambda>i. entry_id (ahead ?s1 i)) [0..<Suc k]
           \<and> touched tr = attempted tr
           \<and> (\<forall>xs\<in>set (applied tr). xs = args)"
  proof (rule Suc.IH)
    show "activeProvider ?s1 < length (providers ?s1)" using len by simp
    show "k = nat (r - 1)" using Suc.prems(2) by simp
    show "0 \<le> r - 1" using pos by simp
    show "\<forall>i\<le>k. fails_retryably ?s1 (ahead ?s1 i) p args"
      using Suc.prems(4) by (simp add: ahead_moved fails_retryably_moved)
  qed
  then obtain n res tr where
    inner: "dispatch_with h' n ?s1 (ahead s 1) p (r - 1) args
             = Some (res, ?s1\<lparr>activeProvider := (activeProvider ?s1 + k) mod length (providers ?s1)\<rparr>, tr)"
    and rv0: "result_error res = failure_of (provider (ahead ?s1 k) p) args"
    and rv1: "result_error res \<noteq> None"
    and at: "attempted tr = map (\<lambda>i. entry_id (ahead ?s1 i)) [0..<Suc k]"
    and to: "touched tr = attempted tr"
    and ap: "\<forall>xs\<in>set (applied tr). xs = args"
    unfolding nxt by blast
  from rv0 have rv: "result_error res = failure_of (provider (ahead s (Suc k)) p) args"
    by (simp add: ahead_moved)
  have st: "?s1\<lparr>activeProvider := (activeProvider ?s1 + k) mod length (providers ?s1)\<rparr>
            = s\<lparr>activeProvider := (activeProvider s + Suc k) mod length (providers s)\<rparr>"
    by (simp add: mod_add_left_eq)
  have at': "attempted (pre @ tr) = map (\<lambda>i. entry_id (ahead s i)) [0..<Suc (Suc k)]"
    unfolding attempted_append pre at
    by (subst (2) map_upt_Suc) (simp add: ahead_moved del: upt_Suc)
  have to': "touched (pre @ tr) = attempted (pre @ tr)"
    by (simp add: touched_append attempted_append pre to)
  from step[OF inner] have
    "dispatch_with h (Suc n) s (ahead s 0) p r args
       = Some (wrap res, s\<lparr>activeProvider := (activeProvider s + Suc k) mod length (providers s)\<rparr>,
               pre @ tr)"
    unfolding st .
  moreover have "result_error (wrap res) = failure_of (provider (ahead s (Suc k)) p) args"
    "result_error (wrap res) \<noteq> None"
    using rv rv1 result_error_wrap[OF wrap] by simp_all
  moreover have "\<forall>xs\<in>set (applied (pre @ tr)). xs = args"
    using ap pre(3) by (auto simp: applied_append)
  ultimately show ?case using at' to' by blast
qed

subsection \<open>Registration with constant draws\<close>

lemma uid_loop_const:
  "k < 10 \<Longrightarrow> length ident \<le> len \<Longrightarrow>
   uid_loop len ident (\<lambda>i. k) = (ident @ replicate (len - length ident) (''0123456789'' ! k), \<lambda>i. k)"
proof (induction len ident "\<lambda>i::nat. k" rule: uid_loop.induct)
  case (1 len ident)
  show ?case
  proof (cases "length ident < len")
    case True
    then have "uid_loop len ident (\<lambda>i. k) = uid_loop len (ident @ draw_str k) (\<lambda>i. k)"
      by (subst uid_loop.simps) simp
    also have "\<dots> = ((ident @ draw_str k) @ replicate (len - length (ident @ draw_str k)) (''0123456789'' ! k), \<lambda>i. k)"
      using 1 True by (simp add: draw_str_def)
    also have "(ident @ draw_str k) @ replicate (len - length (ident @ draw_str k)) (''0123456789'' ! k)
               = ident @ replicate (len - length ident) (''0123456789'' ! k)"
      using True 1(2) by (simp add: draw_str_def replicate_app_Cons_same Suc_diff_Suc flip: replicate_Suc)
    finally show ?thesis .
  next
    case False
    with 1 show ?thesis by (subst uid_loop.simps) simp
  qed
qed

lemma addProvider_const:
  "k < 10 \<Longrightarrow> addProvider p (\<lambda>i. k) s =
     Inr (RThis, s\<lparr>providers := providers s @ [\<lparr>entry_id = replicate 12 (''0123456789'' ! k), provider = p, ms = 0\<rparr>]\<rparr>, \<lambda>i. k)"
  by (simp add: addProvider_def uid_def uid_loop_const)

subsection \<open>Evaluating the test registries\<close>

lemma add_all_Cons:
  "k < 10 \<Longrightarrow> add_all (p # ps) k s =
     add_all ps (Suc k)
       (s\<lparr>providers := providers s @ [\<lparr>entry_id = replicate 12 (''0123456789'' ! k), provider = p, ms = 0\<rparr>]\<rparr>)"
  by (simp add: addProvider_const)

lemma built_two:
  "built cfg [p0, p1] =
     \<lparr> retries = (case cfg_retries cfg of None \<Rightarrow> 3 | Some r \<Rightarrow> r),
       shouldRetryOn = (case cfg_shouldRetryOn cfg of None \<Rightarrow> default_shouldRetryOn | Some f \<Rightarrow> f),
       activeProvider = 0,
       providers = [\<lparr>entry_id = ''000000000000'', provider = p0, ms = 0\<rparr>,
                    \<lparr>entry_id = ''111111111111'', provider = p1, ms = 0\<rparr>] \<rparr>"
  by (simp add: built_def new_FailoverProvider_def add_all_Cons numeral_eq_Suc del: add_all.simps(2))

lemma built_one:
  "built cfg [p0] =
     \<lparr> retries = (case cfg_retries cfg of None \<Rightarrow> 3 | Some r \<Rightarrow> r),
       shouldRetryOn = (case cfg_shouldRetryOn cfg of None \<Rightarrow> default_shouldRetryOn | Some f \<Rightarrow> f),
       activeProvider = 0,
       providers = [\<lparr>entry_id = ''000000000000'', provider = p0, ms = 0\<rparr>] \<rparr>"
  by (simp add: built_def new_FailoverProvider_def add_all_Cons numeral_eq_Suc del: add_all.simps(2))

lemma built_three:
  "built cfg [p0, p1, p2] =
     \<lparr> retries = (case cfg_retries cfg of None \<Rightarrow> 3 | Some r \<Rightarrow> r),
       shouldRetryOn = (case cfg_shouldRetryOn cfg of None \<Rightarrow> default_shouldRetryOn | Some f \<Rightarrow> f),
       activeProvider = 0,
       providers = [\<lparr>entry_id = ''000000000000'', provider = p0, ms = 0\<rparr>,
                    \<lparr>entry_id = ''111111111111'', provider = p1, ms = 0\<rparr>,
                    \<lparr>entry_id = ''222222222222'', provider = p2, ms = 0\<rparr>] \<rparr>"
  by (simp add: built_def new_FailoverProvider_def add_all_Cons numeral_eq_Suc del: add_all.simps(2))

lemma next_index_differs:
  assumes "a < n" and "2 \<le> n"
  shows "Suc a mod n \<noteq> a"
proof (cases "Suc a < n")
  case True
  then show ?thesis by simp
next
  case False
  with assms have "Suc a = n" by simp
  with assms show ?thesis by auto
qed


lemma draw_str_digits: "set (draw_str d) \<subseteq> set ''0123456789''"
proof (cases "d < 10")
  case True
  then have "''0123456789'' ! d \<in> set ''0123456789''" by (intro nth_mem) simp
  with True show ?thesis by (simp add: draw_str_def)
next
  case False
  then show ?thesis by (simp add: draw_str_def)
qed

lemma draw_str_length: "length (draw_str d) = 1 \<or> length (draw_str d) = 2"
  by (simp add: draw_str_def)

lemma uid_loop_length:
  "length ident \<le> Suc len \<Longrightarrow>
   len \<le> length (fst (uid_loop len ident rnd)) \<and> length (fst (uid_loop len ident rnd)) \<le> Suc len"
proof (induction len ident rnd rule: uid_loop.induct)
  case (1 len ident rnd)
  show ?case
  proof (cases "length ident < len")
    case True
    have eq: "uid_loop len ident rnd = uid_loop len (ident @ draw_str (rnd 0)) (\<lambda>i. rnd (Suc i))"
      using True by (subst uid_loop.simps) simp
    from True draw_str_length[of "rnd 0"]
    have "length (ident @ draw_str (rnd 0)) \<le> Suc len" by auto
    from "1.IH"[OF True this] show ?thesis by (simp only: eq)
  next
    case False
    then have "uid_loop len ident rnd = (ident, rnd)" by (subst uid_loop.simps) simp
    with False "1.prems" show ?thesis by simp
  qed
qed

lemma uid_loop_chars:
  assumes "\<And>d. set (draw_str d) \<subseteq> D"
  shows "set ident \<subseteq> D \<Longrightarrow> set (fst (uid_loop len ident rnd)) \<subseteq> D"
proof (induction len ident rnd rule: uid_loop.induct)
  case (1 len ident rnd)
  show ?case
  proof (cases "length ident < len")
    case True
    have eq: "uid_loop len ident rnd = uid_loop len (ident @ draw_str (rnd 0)) (\<lambda>i. rnd (Suc i))"
      using True by (subst uid_loop.simps) simp
    from "1.prems" assms[of "rnd 0"] have "set (ident @ draw_str (rnd 0)) \<subseteq> D" by simp
    from "1.IH"[OF True this] show ?thesis by (simp only: eq)
  next
    case False
    then have "uid_loop len ident rnd = (ident, rnd)" by (subst uid_loop.simps) simp
    with "1.prems" show ?thesis by simp
  qed
qed

lemmas animals = cat_def dog_def cockroach_def animal_def no_sound_def no_speech_def defaults_def

subsection \<open>States within reach\<close>


lemma index_kept:
  "kept_by_switch (\<lambda>x. activeProvider x < length (providers x)
                          \<or> (providers x = [] \<and> activeProvider x = 0))"
  unfolding kept_by_switch_def using switch_Inr(2) by blast

lemma reachable_invariant:
  assumes init: "\<And>cfg. P (new_FailoverProvider cfg)"
    and add: "\<And>s p rnd rv s' rnd'. P s \<Longrightarrow> addProvider p rnd s = Inr (rv, s', rnd') \<Longrightarrow> P s'"
    and kept: "kept_by_switch P"
  shows "reachable s \<Longrightarrow> P s"
proof (induction rule: reachable.induct)
  case (r_new cfg)
  show ?case by (rule init)
next
  case (r_add s p rnd rv s' rnd')
  then show ?case using add by blast
next
  case (r_switch s failed nxt s')
  then show ?case using kept unfolding kept_by_switch_def by blast
next
  case (r_get s n p g s' tr)
  from get_trap_facts[OF kept r_get.IH r_get.hyps(2)] show ?case by blast
next
  case (r_invoke s n c args res s' tr)
  from invoke_facts[OF kept r_invoke.IH r_invoke.hyps(2)] show ?case by blast
qed

lemma reachable_call:
  assumes "reachable s" and "call n s p args = Some (res, s', tr)"
  shows "reachable s'"
proof -
  from assms(2) obtain pr s1 tr1 where gt: "get_trap n s p = Some (pr, s1, tr1)"
    by (auto simp: call_def split: option.splits)
  with assms(1) have r1: "reachable s1" by (rule r_get)
  show ?thesis
  proof (cases pr)
    case (PropFn c)
    with assms(2) gt obtain tr2 where "invoke n c args s1 = Some (res, s', tr2)"
      by (auto simp: call_def split: option.splits)
    with r1 show ?thesis by (rule r_invoke)
  qed (use gt assms(2) r1 in \<open>auto simp: call_def\<close>)
qed

lemma reachable_add_all: "reachable s \<Longrightarrow> reachable (add_all ps k s)"
proof (induction ps arbitrary: k s)
  case Nil
  then show ?case by simp
next
  case (Cons p ps)
  show ?case
  proof (cases "addProvider p (\<lambda>i. k) s")
    case (Inl er)
    with Cons.prems show ?thesis by simp
  next
    case (Inr x)
    obtain rv s' rnd' where x: "x = (rv, s', rnd')" by (cases x)
    with Inr Cons.prems have "reachable s'" by (auto intro: r_add)
    with Inr x Cons.IH show ?thesis by simp
  qed
qed

lemma reachable_built: "reachable (built cfg ps)"
  unfolding built_def by (rule reachable_add_all) (rule r_new)

subsection \<open>Runs on the test registries\<close>

lemma run_sync_switch:
  "call (Suc (Suc (Suc (Suc 0)))) (built defaults [cockroach, dog, cat]) ''syncSpeak'' [] =
     Some (Returned (JStr ''woof''), (built defaults [cockroach, dog, cat])\<lparr>activeProvider := 1\<rparr>,
      [Lookup ''000000000000'' ''syncSpeak'', Apply ''000000000000'' [],
       Lookup ''111111111111'' ''syncSpeak'', Apply ''111111111111'' []])"
  by (simp add: built_three call_def get_trap.simps proxy.simps invoke.simps switch_def Let_def
        animals default_shouldRetryOn_def)

lemma run_async_ok:
  "call (Suc (Suc (Suc 0))) (built defaults [cat]) ''speak'' [] =
     Some (Resolved (JStr ''meow''), built defaults [cat],
      [Lookup ''000000000000'' ''speak'', Apply ''000000000000'' []])"
  by (simp add: built_one call_def get_trap.simps proxy.simps invoke.simps animals)

lemma run_getter:
  "get_trap (Suc (Suc (Suc (Suc (Suc (Suc 0)))))) (built defaults [cockroach, dog]) ''SOUND'' =
     Some (PropValue (JStr ''woof''), (built defaults [cockroach, dog])\<lparr>activeProvider := 1\<rparr>,
      [Lookup ''000000000000'' ''SOUND'', Lookup ''111111111111'' ''SOUND'',
       Within [Lookup ''111111111111'' ''sound'']])"
  by (simp add: built_two get_trap.simps proxy.simps access.simps switch_def Let_def animals
        default_shouldRetryOn_def)

subsection \<open>Providers whose accessors read the composite\<close>




lemma run_relay:
  "call (Suc (Suc (Suc (Suc (Suc (Suc (Suc (Suc 0))))))))
        (built \<lparr>cfg_retries = Some 1, cfg_shouldRetryOn = None\<rparr>
               [relay ''y0'', relay ''y1'', relay ''y2'']) ''X'' [] =
     Some (Thrown (JError ''y2''),
           (built \<lparr>cfg_retries = Some 1, cfg_shouldRetryOn = None\<rparr>
                  [relay ''y0'', relay ''y1'', relay ''y2''])\<lparr>activeProvider := 2\<rparr>,
           [Lookup ''000000000000'' ''X'',
            Within [Lookup ''000000000000'' ''y'', Lookup ''111111111111'' ''y''],
            Lookup ''111111111111'' ''X'',
            Within [Lookup ''111111111111'' ''y'', Lookup ''222222222222'' ''y'']])"
  by (simp add: built_three call_def get_trap.simps proxy.simps access.simps switch_def Let_def
        relay_def default_shouldRetryOn_def)

subsection \<open>Dispatches without a retry\<close>







section \<open>The claims\<close>



lemma get_trap_unique:
  assumes "get_trap n s p = Some x" and "get_trap m s p = Some y"
  shows "x = y"
proof -
  from assms(1) have "get_trap (max n m) s p = Some x" by (rule get_trap_mono) simp
  moreover from assms(2) have "get_trap (max n m) s p = Some y" by (rule get_trap_mono) simp
  ultimately show ?thesis by simp
qed

subsection \<open>C3: the switch advances only from the failed provider\<close>

text \<open>
  C3. In a state whose active index is within the (then non-empty) provider list,
  \<^verbatim>\<open>_switch(failedProvider)\<close> moves the index one position on, modulo the length,
  when the active entry has the identifier of \<open>failedProvider\<close>, and leaves it where it
  is otherwise; either way it returns the entry at the resulting index and changes nothing
  else. When the identifiers of the entries are pairwise distinct, a second notification
  for the same failed provider then finds another entry active, so that the two together
  move the index one position, not two.
\<close>

theorem switch_advances_only_from_failed:
  assumes "activeProvider s < length (providers s)"
  shows "\<exists>nxt s'. switch failed s = Inr (nxt, s')
           \<and> s' = s\<lparr>activeProvider :=
                     (if entry_id failed = entry_id (providers s ! activeProvider s)
                      then (activeProvider s + 1) mod length (providers s)
                      else activeProvider s)\<rparr>
           \<and> nxt = providers s' ! activeProvider s'
           \<and> (distinct (map entry_id (providers s))
                \<and> entry_id failed = entry_id (providers s ! activeProvider s)
               \<longrightarrow> (\<exists>nxt2 s2. switch failed s' = Inr (nxt2, s2)
                      \<and> activeProvider s2 = (activeProvider s + 1) mod length (providers s)))"
proof -
  let ?n = "length (providers s)"
  let ?a = "activeProvider s"
  let ?a' = "if entry_id failed = entry_id (providers s ! ?a) then (?a + 1) mod ?n else ?a"
  let ?s' = "s\<lparr>activeProvider := ?a'\<rparr>"
  have first: "switch failed s = Inr (providers s ! ?a', ?s')"
    using assms by (simp add: switch_in_range Let_def)
  have twice: "\<exists>nxt2 s2. switch failed ?s' = Inr (nxt2, s2) \<and> activeProvider s2 = (?a + 1) mod ?n"
    if d: "distinct (map entry_id (providers s))"
      and same: "entry_id failed = entry_id (providers s ! ?a)"
  proof -
    from assms have in_range: "Suc ?a mod ?n < ?n" by (intro mod_less_divisor) auto
    show ?thesis
    proof (cases "?n = 1")
      case True
      with assms same show ?thesis by (simp add: switch_in_range Let_def)
    next
      case False
      with assms have "2 \<le> ?n" by simp
      with assms have ne: "Suc ?a mod ?n \<noteq> ?a" by (intro next_index_differs)
      from d in_range assms ne
      have "map entry_id (providers s) ! (Suc ?a mod ?n) \<noteq> map entry_id (providers s) ! ?a"
        by (simp add: nth_eq_iff_index_eq del: nth_map)
      with in_range assms same
      have "entry_id failed \<noteq> entry_id (providers s ! (Suc ?a mod ?n))" by simp
      with in_range same show ?thesis by (simp add: switch_in_range Let_def)
    qed
  qed
  from first twice show ?thesis by auto
qed

text \<open>
  The registry \<^verbatim>\<open>[Cat, Dog]\<close>: the first notification that the cat failed moves the
  index from 0 to 1, the second one leaves it at 1.
\<close>

theorem switch_advances_only_from_failed_witness:
  "activeProvider (built defaults [cat, dog]) < length (providers (built defaults [cat, dog]))
   \<and> distinct (map entry_id (providers (built defaults [cat, dog])))
   \<and> switch (providers (built defaults [cat, dog]) ! 0) (built defaults [cat, dog])
       = Inr (providers (built defaults [cat, dog]) ! 1, (built defaults [cat, dog])\<lparr>activeProvider := 1\<rparr>)
   \<and> switch (providers (built defaults [cat, dog]) ! 0) ((built defaults [cat, dog])\<lparr>activeProvider := 1\<rparr>)
       = Inr (providers (built defaults [cat, dog]) ! 1, (built defaults [cat, dog])\<lparr>activeProvider := 1\<rparr>)"
proof -
  let ?s = "built defaults [cat, dog]"
  have h: "activeProvider ?s < length (providers ?s)" by (simp add: built_two)
  have d: "distinct (map entry_id (providers ?s))" by (simp add: built_two)
  from switch_advances_only_from_failed[OF h, of "providers ?s ! 0"] h d
  show ?thesis by (simp add: built_two switch_in_range Let_def)
qed

text \<open>
  As stated for every state the claim fails: nothing makes the identifiers distinct. After
  three registrations with equal draws the three entries have the same identifier, and two
  notifications for the first of them move the index from 0 to 1 and on to 2.
\<close>

theorem equal_identifiers_advance_twice:
  "(case addProvider cat (\<lambda>i. 0) (new_FailoverProvider defaults) of
      Inl er \<Rightarrow> False
    | Inr (rv1, s1, rnd1) \<Rightarrow>
        (case addProvider dog rnd1 s1 of
           Inl er \<Rightarrow> False
         | Inr (rv2, s2, rnd2) \<Rightarrow>
             (case addProvider cat rnd2 s2 of
                Inl er \<Rightarrow> False
              | Inr (rv3, s3, rnd3) \<Rightarrow>
                  activeProvider s3 = 0
                  \<and> (case switch (providers s3 ! 0) s3 of
                        Inl er \<Rightarrow> False
                      | Inr (n1, s4) \<Rightarrow>
                          activeProvider s4 = 1
                          \<and> (case switch (providers s3 ! 0) s4 of
                                Inl er \<Rightarrow> False
                              | Inr (n2, s5) \<Rightarrow> activeProvider s5 = 2)))))"
  by (simp add: addProvider_const new_FailoverProvider_def switch_def Let_def)

subsection \<open>C7: registration\<close>

text \<open>
  C7. Registration never fails. It appends one entry, holding the provider, zero latency
  and the identifier that \<^verbatim>\<open>uid()\<close> builds from the random draws (12 or 13 decimal
  digits), leaves the entries already registered, the active index and the retry settings as
  they are, and returns the factory itself, not the identifier.
\<close>

theorem addProvider_appends_entry:
  "\<exists>ident rnd'.
     addProvider p rnd s
       = Inr (RThis, s\<lparr>providers := providers s @ [\<lparr>entry_id = ident, provider = p, ms = 0\<rparr>]\<rparr>, rnd')
     \<and> (ident, rnd') = uid_loop 12 [] rnd
     \<and> (length ident = 12 \<or> length ident = 13)
     \<and> set ident \<subseteq> set ''0123456789''"
proof -
  obtain ident rnd' where u: "uid_loop 12 [] rnd = (ident, rnd')"
    by (cases "uid_loop 12 [] rnd")
  from uid_loop_length[of "[]" 12 rnd] u
  have len: "length ident = 12 \<or> length ident = 13" by auto
  have "set (fst (uid_loop 12 [] rnd)) \<subseteq> set ''0123456789''"
    by (rule uid_loop_chars) (rule draw_str_digits, simp)
  with u have chars: "set ident \<subseteq> set ''0123456789''" by (simp only: fst_conv)
  from u len chars show ?thesis
    by (intro exI[of _ ident] exI[of _ rnd']) (simp add: addProvider_def uid_def)
qed

text \<open>Registering a dog after a cat, every draw being 7.\<close>

theorem addProvider_appends_entry_witness:
  "addProvider dog (\<lambda>i. 7) (built defaults [cat])
     = Inr (RThis,
            (built defaults [cat])\<lparr>providers :=
               [\<lparr>entry_id = ''000000000000'', provider = cat, ms = 0\<rparr>,
                \<lparr>entry_id = ''777777777777'', provider = dog, ms = 0\<rparr>]\<rparr>,
            \<lambda>i. 7)"
  using addProvider_appends_entry[of dog "\<lambda>i. 7" "built defaults [cat]"]
  by (simp add: uid_loop_const built_def new_FailoverProvider_def add_all_Cons numeral_eq_Suc
           del: add_all.simps(2))

text \<open>
  The claim as stated fails: what \<^verbatim>\<open>addProvider\<close> returns is the factory, and two
  registrations whose draws agree get the same identifier.
\<close>

theorem addProvider_returns_factory:
  "(case addProvider cat (\<lambda>i. 0) (new_FailoverProvider defaults) of
      Inl er \<Rightarrow> False
    | Inr (rv, s1, rnd1) \<Rightarrow>
        rv \<noteq> RString (entry_id (last (providers s1)))
        \<and> (case addProvider dog rnd1 s1 of
              Inl er \<Rightarrow> False
            | Inr (rv2, s2, rnd2) \<Rightarrow>
                map entry_id (providers s2) = [''000000000000'', ''000000000000'']))"
  by (simp add: addProvider_const new_FailoverProvider_def numeral_eq_Suc)

subsection \<open>C5: the default retry predicate\<close>

text \<open>
  C5. Left out of the config, \<^verbatim>\<open>shouldRetryOn\<close> is \<^verbatim>\<open>error instanceof Error\<close>: it
  is true of the instances of \<^verbatim>\<open>Error\<close> and false of every other thrown value.
\<close>

theorem default_policy_retries_errors_only:
  "cfg_shouldRetryOn cfg = None \<Longrightarrow>
   shouldRetryOn (new_FailoverProvider cfg) er = (\<exists>m. er = JError m)"
  by (cases er) (simp_all add: new_FailoverProvider_def default_shouldRetryOn_def)

theorem default_policy_retries_errors_only_witness:
  "cfg_shouldRetryOn defaults = None
   \<and> shouldRetryOn (new_FailoverProvider defaults) (JError ''Provider disconnected'')
   \<and> \<not> shouldRetryOn (new_FailoverProvider defaults) JUndefined"
proof -
  have h: "cfg_shouldRetryOn defaults = None" by (simp add: defaults_def)
  from default_policy_retries_errors_only[OF h, of "JError ''Provider disconnected''"]
       default_policy_retries_errors_only[OF h, of JUndefined] h
  show ?thesis by simp
qed

text \<open>A thrown string is an error value that the default predicate does not retry.\<close>

theorem default_policy_rejects_thrown_string:
  "\<not> shouldRetryOn (new_FailoverProvider \<lparr>cfg_retries = None, cfg_shouldRetryOn = None\<rparr>)
       (JStr ''insufficient funds'')"
  by (simp add: new_FailoverProvider_def default_shouldRetryOn_def)

subsection \<open>C9: construction of the composite\<close>

text \<open>
  C9. \<^verbatim>\<open>initialize\<close> throws exactly when the provider list is empty, as it is straight
  after construction; with a provider registered it returns the proxy on the first
  provider. Neither the retry bound nor the retry predicate has a part in it.
\<close>

theorem initialize_fails_iff_empty:
  "((\<exists>er. initialize s = Inl er) \<longleftrightarrow> providers s = [])
   \<and> (providers s \<noteq> [] \<longrightarrow> initialize s = Inr \<lparr>proxy_target = provider (providers s ! 0)\<rparr>)
   \<and> initialize (s\<lparr>retries := r, shouldRetryOn := f\<rparr>) = initialize s
   \<and> (\<exists>er. initialize (new_FailoverProvider cfg) = Inl er)
   \<and> (addProvider p rnd s = Inr (rv, s', rnd') \<longrightarrow> (\<exists>c. initialize s' = Inr c))"
proof -
  have "addProvider p rnd s = Inr (rv, s', rnd') \<longrightarrow> providers s' \<noteq> []"
    by (auto simp: addProvider_def split: sum.splits)
  then show ?thesis
    by (auto simp: initialize_def new_FailoverProvider_def hd_conv_nth)
qed

theorem initialize_fails_iff_empty_witness:
  "providers (built defaults [cat, dog]) \<noteq> []
   \<and> initialize (built defaults [cat, dog]) = Inr \<lparr>proxy_target = cat\<rparr>
   \<and> initialize (built defaults [])
       = Inl (JError ''Cannot initialize an empty provider. Call `addProvider` before this function.'')"
  using initialize_fails_iff_empty[of "built defaults [cat, dog]"]
        initialize_fails_iff_empty[of "built defaults []"]
  by (simp add: built_two) (simp add: built_def initialize_def new_FailoverProvider_def)

subsection \<open>C8: the active index stays within the list\<close>

lemma addProvider_keeps_index_in_range:
  assumes "activeProvider s < length (providers s) \<or> (providers s = [] \<and> activeProvider s = 0)"
    and "addProvider p rnd s = Inr (rv, s', rnd')"
  shows "activeProvider s' < length (providers s') \<or> (providers s' = [] \<and> activeProvider s' = 0)"
  using assms by (auto simp: addProvider_def split: sum.splits)

text \<open>
  C8. In every state that the constructor, \<^verbatim>\<open>addProvider\<close>, \<^verbatim>\<open>_switch\<close> and dispatch
  (the \<^verbatim>\<open>get\<close> trap and the function it returns) can produce, a non-empty provider list
  has the active index within it.
\<close>

theorem active_index_in_range:
  assumes "reachable s" and "providers s \<noteq> []"
  shows "activeProvider s < length (providers s)"
proof -
  have "activeProvider s < length (providers s) \<or> (providers s = [] \<and> activeProvider s = 0)"
    using assms(1)
  proof (rule reachable_invariant[rotated 3])
    show "activeProvider (new_FailoverProvider cfg) < length (providers (new_FailoverProvider cfg))
          \<or> (providers (new_FailoverProvider cfg) = [] \<and> activeProvider (new_FailoverProvider cfg) = 0)"
      for cfg by (simp add: new_FailoverProvider_def)
  qed (rule addProvider_keeps_index_in_range index_kept; assumption?)+
  with assms(2) show ?thesis by blast
qed

text \<open>
  After \<^verbatim>\<open>syncSpeak()\<close> on \<^verbatim>\<open>[Cockroach, Dog, Cat]\<close> the index is 1, within the three
  entries.
\<close>

theorem active_index_in_range_witness:
  "reachable ((built defaults [cockroach, dog, cat])\<lparr>activeProvider := 1\<rparr>)
   \<and> providers ((built defaults [cockroach, dog, cat])\<lparr>activeProvider := 1\<rparr>) \<noteq> []
   \<and> activeProvider ((built defaults [cockroach, dog, cat])\<lparr>activeProvider := 1\<rparr>) = 1
   \<and> length (providers ((built defaults [cockroach, dog, cat])\<lparr>activeProvider := 1\<rparr>)) = 3"
proof -
  let ?s = "built defaults [cockroach, dog, cat]"
  let ?s' = "?s\<lparr>activeProvider := 1\<rparr>"
  have r: "reachable ?s'"
    by (rule reachable_call[OF reachable_built run_sync_switch])
  have ne: "providers ?s' \<noteq> []" by (simp add: built_three)
  from active_index_in_range[OF r ne] r ne show ?thesis
    by (simp add: built_three)
qed

subsection \<open>C6: the latency field\<close>

lemma latency_never_written:
  assumes "reachable s"
  shows "\<forall>e\<in>set (providers s). ms e = 0"
  using assms
proof (rule reachable_invariant[rotated 3])
  show "\<forall>e\<in>set (providers (new_FailoverProvider cfg)). ms e = 0" for cfg
    by (simp add: new_FailoverProvider_def)
  show "\<forall>e\<in>set (providers x'). ms e = 0"
    if "\<forall>e\<in>set (providers x). ms e = 0" "addProvider q rnd x = Inr (rv, x', rnd')"
    for x q rnd rv x' rnd'
    using that by (auto simp: addProvider_def split: sum.splits)
  show "kept_by_switch (\<lambda>x. \<forall>e\<in>set (providers x). ms e = 0)"
    by (auto simp: kept_by_switch_def switch_def Let_def split: if_splits)
qed

text \<open>
  C6. The typedef documents \<^verbatim>\<open>ms\<close> as the last response duration, and the claim has it
  updated after every completed attempt. The class does not do so: the cat's \<^verbatim>\<open>speak()\<close>
  takes 300 milliseconds and resolves, and the latency stored for the cat is 0 afterwards,
  not 300. By \<open>latency_never_written\<close> no path of the class writes the field.
\<close>

theorem latency_not_recorded:
  "(case cat ''speak'' of
      Method f \<Rightarrow>
        settles (f []) = Resolve (JStr ''meow'') \<and> elapsed (f []) = 300
        \<and> (case call (Suc (Suc (Suc 0))) (built defaults [cat]) ''speak'' [] of
              None \<Rightarrow> False
            | Some (res, s', tr) \<Rightarrow>
                res = Resolved (JStr ''meow'')
                \<and> tr = [Lookup ''000000000000'' ''speak'', Apply ''000000000000'' []]
                \<and> ms (providers s' ! 0) = 0
                \<and> ms (providers s' ! 0) \<noteq> elapsed (f []))
    | _ \<Rightarrow> False)"
  unfolding run_async_ok by (simp add: built_one animals)

subsection \<open>C1: failing over to the first provider that succeeds\<close>

lemma call_of_dispatch:
  assumes "activeProvider s < length (providers s)"
    and "dispatch_with (\<lambda>v. Thrown (JError (p @ '' is not a function''))) n s
           (providers s ! activeProvider s) p (retries s) args = Some x"
  shows "call (Suc n) s p args = Some x"
proof -
  from assms(2) obtain pr s1 tr1
    where px: "proxy n s (providers s ! activeProvider s) p (retries s) = Some (pr, s1, tr1)"
    by (auto simp: dispatch_with_def split: option.splits)
  show ?thesis
  proof (cases pr)
    case (PropFn c)
    with assms(2) px obtain z where iv: "invoke n c args s1 = Some z"
      by (auto simp: dispatch_with_def split: option.splits)
    then have "invoke (Suc n) c args s1 = Some z" by (rule invoke_mono) simp
    with assms px iv PropFn show ?thesis by (simp add: call_dispatch dispatch_with_def)
  qed (use assms px in \<open>simp_all add: call_dispatch dispatch_with_def\<close>)
qed




subsection \<open>C2: the bound on attempts and the error that comes out\<close>

lemma kept_trivially: "kept_by_switch (\<lambda>x. True)"
  by (simp add: kept_by_switch_def)

text \<open>
  C2. With a retry bound that is not negative, a call reads the member on at most
  \<open>1 + retries\<close> entries and applies at most as many functions; the accesses that an
  accessor of a provider makes through the composite are dispatches of their own, each with
  the full bound, and are not counted here. When the active index is within the list and
  each of the \<open>1 + retries\<close> entries from the active one on fails by itself (an accessor that
  throws without reading the composite, a function that throws or rejects) with an error
  the predicate accepts, the call returns: exactly these entries are read, no other, and
  the call throws, or rejects with, the very error of the last of them.
\<close>

theorem attempts_bounded_last_error_thrown:
  assumes "0 \<le> retries s"
  shows "(call n s p args = Some (res, s', tr) \<longrightarrow>
            int (attempts tr) \<le> 1 + retries s \<and> int (applications tr) \<le> 1 + retries s)
       \<and> (activeProvider s < length (providers s)
            \<and> (\<forall>i\<le>nat (retries s). fails_retryably s (ahead s i) p args) \<longrightarrow>
          (\<exists>m res s' tr. call m s p args = Some (res, s', tr)
             \<and> result_error res = failure_of (provider (ahead s (nat (retries s))) p) args
             \<and> result_error res \<noteq> None
             \<and> attempted tr = map (\<lambda>i. entry_id (ahead s i)) [0..<Suc (nat (retries s))]
             \<and> touched tr = attempted tr
             \<and> s' = s\<lparr>activeProvider :=
                        (activeProvider s + nat (retries s)) mod length (providers s)\<rparr>))"
proof (intro conjI impI)
  assume c: "call n s p args = Some (res, s', tr)"
  from call_facts[OF kept_trivially TrueI c]
  have "length (attempted tr) \<le> Suc (nat (retries s))"
    and "length (applied tr) \<le> Suc (nat (retries s))" by blast+
  with assms show "int (attempts tr) \<le> 1 + retries s" "int (applications tr) \<le> 1 + retries s"
    by (simp_all add: attempts_def applications_def)
next
  assume h: "activeProvider s < length (providers s)
            \<and> (\<forall>i\<le>nat (retries s). fails_retryably s (ahead s i) p args)"
  let ?h = "\<lambda>v. Thrown (JError (p @ '' is not a function''))"
  let ?s' = "s\<lparr>activeProvider := (activeProvider s + nat (retries s)) mod length (providers s)\<rparr>"
  from h have a: "activeProvider s < length (providers s)"
    and f: "\<forall>i\<le>nat (retries s). fails_retryably s (ahead s i) p args" by blast+
  from dispatch_exhaust[where h = ?h, OF a refl assms f]
  obtain m res tr where
    run: "dispatch_with ?h m s (ahead s 0) p (retries s) args = Some (res, ?s', tr)"
    and rest: "result_error res = failure_of (provider (ahead s (nat (retries s))) p) args"
      "result_error res \<noteq> None"
      "attempted tr = map (\<lambda>i. entry_id (ahead s i)) [0..<Suc (nat (retries s))]"
      "touched tr = attempted tr"
    by blast
  from run have "call (Suc m) s p args = Some (res, ?s', tr)"
    unfolding ahead_current[OF a] by (rule call_of_dispatch[OF a])
  with rest show "\<exists>m res s' tr. call m s p args = Some (res, s', tr)
             \<and> result_error res = failure_of (provider (ahead s (nat (retries s))) p) args
             \<and> result_error res \<noteq> None
             \<and> attempted tr = map (\<lambda>i. entry_id (ahead s i)) [0..<Suc (nat (retries s))]
             \<and> touched tr = attempted tr
             \<and> s' = ?s'"
    by blast
qed

text \<open>
  The test "should retry 1 times and fail": \<^verbatim>\<open>retries: 1\<close> and
  \<^verbatim>\<open>[Cockroach, Cockroach, Cat]\<close>; \<^verbatim>\<open>speak()\<close> makes two attempts and rejects with the
  second cockroach's error, the cat is never attempted.
\<close>

theorem attempts_bounded_last_error_thrown_witness:
  "0 \<le> retries (built \<lparr>cfg_retries = Some 1, cfg_shouldRetryOn = None\<rparr> [cockroach, cockroach, cat])
   \<and> (\<exists>m res s' tr.
         call m (built \<lparr>cfg_retries = Some 1, cfg_shouldRetryOn = None\<rparr> [cockroach, cockroach, cat])
              ''speak'' [] = Some (res, s', tr)
         \<and> result_error res = Some no_speech
         \<and> attempted tr = [''000000000000'', ''111111111111'']
         \<and> touched tr = [''000000000000'', ''111111111111'']
         \<and> activeProvider s' = 1)"
proof -
  let ?s = "built \<lparr>cfg_retries = Some 1, cfg_shouldRetryOn = None\<rparr> [cockroach, cockroach, cat]"
  have h0: "0 \<le> retries ?s" by (simp add: built_three)
  have r: "nat (retries ?s) = 1" by (simp add: built_three)
  have h1: "activeProvider ?s < length (providers ?s)" by (simp add: built_three)
  have h2: "\<forall>i\<le>nat (retries ?s). fails_retryably ?s (ahead ?s i) ''speak'' []"
    unfolding r
    by (simp add: built_three ahead_def fails_retryably_def animals default_shouldRetryOn_def
          le_Suc_eq all_conj_distrib)
  from attempts_bounded_last_error_thrown[OF h0, of _ "''speak''" "[]"] h1 h2
  have "\<exists>m res s' tr. call m ?s ''speak'' [] = Some (res, s', tr)
             \<and> result_error res = failure_of (provider (ahead ?s (nat (retries ?s))) ''speak'') []
             \<and> result_error res \<noteq> None
             \<and> attempted tr = map (\<lambda>i. entry_id (ahead ?s i)) [0..<Suc (nat (retries ?s))]
             \<and> touched tr = attempted tr
             \<and> s' = ?s\<lparr>activeProvider :=
                        (activeProvider ?s + nat (retries ?s)) mod length (providers ?s)\<rparr>"
    by blast
  then obtain m res s' tr where c: "call m ?s ''speak'' [] = Some (res, s', tr)"
    and e: "result_error res = failure_of (provider (ahead ?s 1) ''speak'') []"
      "attempted tr = map (\<lambda>i. entry_id (ahead ?s i)) [0..<Suc 1]"
      "touched tr = attempted tr"
      "s' = ?s\<lparr>activeProvider := (activeProvider ?s + 1) mod length (providers ?s)\<rparr>"
    unfolding r by blast
  from e(1) have 1: "result_error res = Some no_speech"
    by (simp add: built_three ahead_def animals)
  from e(2) have 2: "attempted tr = [''000000000000'', ''111111111111'']"
    by (simp add: built_three ahead_def)
  from e(3) 2 have 3: "touched tr = [''000000000000'', ''111111111111'']" by simp
  from e(4) have 4: "activeProvider s' = 1" by (simp add: built_three)
  from h0 c 1 2 3 4 show ?thesis by blast
qed

text \<open>
  Counted over all the reads that a call causes, the bound fails, and the error can come
  from a provider that the call itself never read the member on. With \<^verbatim>\<open>retries: 1\<close> and
  three providers \<^verbatim>\<open>{ get X () { return this.y }, get y () { throw new Error('y' + i) } }\<close>,
  reading \<^verbatim>\<open>X\<close> makes six reads on three providers: \<^verbatim>\<open>X\<close> is read on the first two, and
  each of these reads makes an access to \<^verbatim>\<open>y\<close> that fails over once more. What comes out
  is the third provider's error, and the index ends at 2.
\<close>

theorem nested_reads_exceed_the_bound:
  "call (Suc (Suc (Suc (Suc (Suc (Suc (Suc (Suc 0))))))))
        (built \<lparr>cfg_retries = Some 1, cfg_shouldRetryOn = None\<rparr>
               [relay ''y0'', relay ''y1'', relay ''y2'']) ''X'' [] =
     Some (Thrown (JError ''y2''),
           (built \<lparr>cfg_retries = Some 1, cfg_shouldRetryOn = None\<rparr>
                  [relay ''y0'', relay ''y1'', relay ''y2''])\<lparr>activeProvider := 2\<rparr>,
           [Lookup ''000000000000'' ''X'',
            Within [Lookup ''000000000000'' ''y'', Lookup ''111111111111'' ''y''],
            Lookup ''111111111111'' ''X'',
            Within [Lookup ''111111111111'' ''y'', Lookup ''222222222222'' ''y'']])
   \<and> retries (built \<lparr>cfg_retries = Some 1, cfg_shouldRetryOn = None\<rparr>
                    [relay ''y0'', relay ''y1'', relay ''y2'']) = 1
   \<and> attempted [Lookup ''000000000000'' ''X'',
                 Within [Lookup ''000000000000'' ''y'', Lookup ''111111111111'' ''y''],
                 Lookup ''111111111111'' ''X'',
                 Within [Lookup ''111111111111'' ''y'', Lookup ''222222222222'' ''y'']]
       = [''000000000000'', ''111111111111'']
   \<and> touched [Lookup ''000000000000'' ''X'',
               Within [Lookup ''000000000000'' ''y'', Lookup ''111111111111'' ''y''],
               Lookup ''111111111111'' ''X'',
               Within [Lookup ''111111111111'' ''y'', Lookup ''222222222222'' ''y'']]
       = [''000000000000'', ''000000000000'', ''111111111111'',
          ''111111111111'', ''111111111111'', ''222222222222'']"
  unfolding run_relay by (simp add: built_three)

subsection \<open>C4: a getter that throws\<close>

text \<open>
  C4. When reading member \<open>p\<close> on the target throws \<open>er\<close> (the accessor may have read the
  composite before, leaving the state \<open>s1\<close>), \<^verbatim>\<open>_proxy\<close> rethrows \<open>er\<close> if no retry is left
  or the predicate rejects \<open>er\<close>; otherwise it calls \<^verbatim>\<open>_switch(target)\<close> and reads \<open>p\<close> on
  the entry that returns, with one retry less. A function that throws \<open>er\<close> is handled by
  the same test, the same switch and the same re-read with one retry less, followed by the
  application. For the \<^verbatim>\<open>get\<close> trap, whose target is the active entry, the switch moves
  the index one position on. Whichever of the two ways a member fails by itself, the
  dispatch on it stops with \<open>er\<close> in the first case, and in the second is the dispatch on
  the next entry with one retry less.
\<close>

theorem getter_failure_handled_as_call_failure:
  "(reflect_get n s target p = Some (GotThrow er, s1, tr1) \<longrightarrow>
      proxy (Suc n) s target p r =
        (if r \<le> 0 \<or> \<not> shouldRetryOn s1 er
         then Some (PropThrow er, s1, Lookup (entry_id target) p # tr1)
         else case switch target s1 of
                Inl er' \<Rightarrow> Some (PropThrow er', s1, Lookup (entry_id target) p # tr1)
              | Inr (nxt, s2) \<Rightarrow>
                  (case proxy n s2 nxt p (r - 1) of
                     None \<Rightarrow> None
                   | Some (pr, s3, tr) \<Rightarrow>
                       Some (pr, s3, Lookup (entry_id target) p # tr1 @ tr))))
   \<and> (apply_prop n (c_prop c) args s = Some (Throw er, s1, tr1) \<longrightarrow>
      invoke (Suc n) c args s =
        (if c_retries c \<le> 0 \<or> \<not> shouldRetryOn s1 er
         then Some (Thrown er, s1, Apply (entry_id (c_target c)) args # tr1)
         else case switch (c_target c) s1 of
                Inl er' \<Rightarrow> Some (Thrown er', s1, Apply (entry_id (c_target c)) args # tr1)
              | Inr (nxt, s2) \<Rightarrow>
                  (case reattempt n s2 nxt (c_p c) (c_retries c - 1) args of
                     None \<Rightarrow> None
                   | Some (res, s3, tr) \<Rightarrow>
                       Some (res, s3, Apply (entry_id (c_target c)) args # tr1 @ tr))))
   \<and> (activeProvider s < length (providers s) \<and> target = providers s ! activeProvider s
        \<and> provider target p = Accessor (Raise er) \<longrightarrow>
      get_trap (Suc (Suc (Suc n))) s p =
        (if retries s \<le> 0 \<or> \<not> shouldRetryOn s er
         then Some (PropThrow er, s, [Lookup (entry_id target) p])
         else case proxy (Suc n)
                     (s\<lparr>activeProvider := (activeProvider s + 1) mod length (providers s)\<rparr>)
                     (providers s ! ((activeProvider s + 1) mod length (providers s)))
                     p (retries s - 1) of
                None \<Rightarrow> None
              | Some (pr, s3, tr) \<Rightarrow> Some (pr, s3, Lookup (entry_id target) p # tr)))
   \<and> (failure_of (provider target p) args = Some er \<and> (r \<le> 0 \<or> \<not> shouldRetryOn s er) \<longrightarrow>
        (\<exists>res tr. dispatch_with h (Suc (Suc n)) s target p r args = Some (res, s, tr)
                  \<and> result_error res = Some er \<and> attempted tr = [entry_id target]))
   \<and> (failure_of (provider target p) args = Some er \<and> 0 < r \<and> shouldRetryOn s er
        \<and> switch target s = Inr (nxt, s') \<longrightarrow>
        (\<exists>h' wrap pre.
           (wrap = id \<or> wrap = in_promise) \<and> attempted pre = [entry_id target]
           \<and> (\<forall>m res s'' tr.
                 dispatch_with h' m s' nxt p (r - 1) args = Some (res, s'', tr) \<longrightarrow>
                 dispatch_with h (Suc m) s target p r args = Some (wrap res, s'', pre @ tr))))"
proof (intro conjI impI)
  assume "reflect_get n s target p = Some (GotThrow er, s1, tr1)"
  then show "proxy (Suc n) s target p r =
        (if r \<le> 0 \<or> \<not> shouldRetryOn s1 er
         then Some (PropThrow er, s1, Lookup (entry_id target) p # tr1)
         else case switch target s1 of
                Inl er' \<Rightarrow> Some (PropThrow er', s1, Lookup (entry_id target) p # tr1)
              | Inr (nxt, s2) \<Rightarrow>
                  (case proxy n s2 nxt p (r - 1) of
                     None \<Rightarrow> None
                   | Some (pr, s3, tr) \<Rightarrow>
                       Some (pr, s3, Lookup (entry_id target) p # tr1 @ tr)))"
    by (rule proxy_Throw)
next
  assume "apply_prop n (c_prop c) args s = Some (Throw er, s1, tr1)"
  then have st: "apply_prop n (c_prop c) args s
                   = Some ((if False then Reject er else Throw er), s1, tr1)" by simp
  show "invoke (Suc n) c args s =
        (if c_retries c \<le> 0 \<or> \<not> shouldRetryOn s1 er
         then Some (Thrown er, s1, Apply (entry_id (c_target c)) args # tr1)
         else case switch (c_target c) s1 of
                Inl er' \<Rightarrow> Some (Thrown er', s1, Apply (entry_id (c_target c)) args # tr1)
              | Inr (nxt, s2) \<Rightarrow>
                  (case reattempt n s2 nxt (c_p c) (c_retries c - 1) args of
                     None \<Rightarrow> None
                   | Some (res, s3, tr) \<Rightarrow>
                       Some (res, s3, Apply (entry_id (c_target c)) args # tr1 @ tr)))"
    unfolding invoke_failure[OF st]
    by (auto split: sum.splits option.splits)
next
  assume h: "activeProvider s < length (providers s) \<and> target = providers s ! activeProvider s
        \<and> provider target p = Accessor (Raise er)"
  then have sw: "switch target s =
      Inr (providers s ! ((activeProvider s + 1) mod length (providers s)),
           s\<lparr>activeProvider := (activeProvider s + 1) mod length (providers s)\<rparr>)"
    by (simp add: switch_in_range Let_def)
  from h have tg: "provider target p = Accessor (Raise er)" by blast
  have rg: "reflect_get (Suc n) s target p = Some (GotThrow er, s, [])"
    by (rule reflect_get_Raise[OF tg])
  from h have "get_trap (Suc (Suc (Suc n))) s p = proxy (Suc (Suc n)) s target p (retries s)"
    by (simp add: get_trap.simps)
  then show "get_trap (Suc (Suc (Suc n))) s p =
        (if retries s \<le> 0 \<or> \<not> shouldRetryOn s er
         then Some (PropThrow er, s, [Lookup (entry_id target) p])
         else case proxy (Suc n)
                     (s\<lparr>activeProvider := (activeProvider s + 1) mod length (providers s)\<rparr>)
                     (providers s ! ((activeProvider s + 1) mod length (providers s)))
                     p (retries s - 1) of
                None \<Rightarrow> None
              | Some (pr, s3, tr) \<Rightarrow> Some (pr, s3, Lookup (entry_id target) p # tr))"
    by (simp add: proxy_Throw[OF rg] sw split: option.splits)
next
  assume h: "failure_of (provider target p) args = Some er \<and> (r \<le> 0 \<or> \<not> shouldRetryOn s er)"
  then have f: "failure_of (provider target p) args = Some er"
    and st: "r \<le> 0 \<or> \<not> shouldRetryOn s er" by blast+
  from dispatch_stop[where h = h and n = n, OF f st]
  show "\<exists>res tr. dispatch_with h (Suc (Suc n)) s target p r args = Some (res, s, tr)
                  \<and> result_error res = Some er \<and> attempted tr = [entry_id target]"
    by blast
next
  assume h: "failure_of (provider target p) args = Some er \<and> 0 < r \<and> shouldRetryOn s er
        \<and> switch target s = Inr (nxt, s')"
  then have f: "failure_of (provider target p) args = Some er" and r: "0 < r"
    and ok: "shouldRetryOn s er" and sw: "switch target s = Inr (nxt, s')" by blast+
  from dispatch_retry[where h = h, OF f r ok sw]
  show "\<exists>h' wrap pre.
           (wrap = id \<or> wrap = in_promise) \<and> attempted pre = [entry_id target]
           \<and> (\<forall>m res s'' tr.
                 dispatch_with h' m s' nxt p (r - 1) args = Some (res, s'', tr) \<longrightarrow>
                 dispatch_with h (Suc m) s target p r args = Some (wrap res, s'', pre @ tr))"
    by blast
qed

text \<open>
  The test "should retry on the failed getter": on \<^verbatim>\<open>[Cockroach, Dog]\<close> the read of
  \<^verbatim>\<open>SOUND\<close> throws on the cockroach and gives the dog's \<^verbatim>\<open>'woof'\<close>, the index at 1.
  The test "should switch provider": on \<^verbatim>\<open>[Cockroach, Dog, Cat]\<close> the cockroach's
  \<^verbatim>\<open>syncSpeak\<close> throws when applied, and the function returns the dog's \<^verbatim>\<open>'woof'\<close>, the
  index at 1.
\<close>

theorem getter_failure_handled_as_call_failure_witness:
  "reflect_get (Suc (Suc (Suc (Suc 0)))) (built defaults [cockroach, dog])
       \<lparr>entry_id = ''000000000000'', provider = cockroach, ms = 0\<rparr> ''SOUND''
     = Some (GotThrow no_sound, built defaults [cockroach, dog], [])
   \<and> proxy (Suc (Suc (Suc (Suc (Suc 0))))) (built defaults [cockroach, dog])
       \<lparr>entry_id = ''000000000000'', provider = cockroach, ms = 0\<rparr> ''SOUND'' 3
     = Some (PropValue (JStr ''woof''), (built defaults [cockroach, dog])\<lparr>activeProvider := 1\<rparr>,
             [Lookup ''000000000000'' ''SOUND'', Lookup ''111111111111'' ''SOUND'',
              Within [Lookup ''111111111111'' ''sound'']])
   \<and> apply_prop (Suc (Suc 0)) (Native (\<lambda>args. \<lparr>settles = Throw no_speech, elapsed = 0\<rparr>)) []
       (built defaults [cockroach, dog, cat])
     = Some (Throw no_speech, built defaults [cockroach, dog, cat], [])
   \<and> invoke (Suc (Suc (Suc 0)))
       (Closure \<lparr>entry_id = ''000000000000'', provider = cockroach, ms = 0\<rparr>
                (Native (\<lambda>args. \<lparr>settles = Throw no_speech, elapsed = 0\<rparr>)) ''syncSpeak'' 3) []
       (built defaults [cockroach, dog, cat])
     = Some (Returned (JStr ''woof''), (built defaults [cockroach, dog, cat])\<lparr>activeProvider := 1\<rparr>,
             [Apply ''000000000000'' [], Lookup ''111111111111'' ''syncSpeak'',
              Apply ''111111111111'' []])"
proof -
  let ?s = "built defaults [cockroach, dog]"
  let ?t = "built defaults [cockroach, dog, cat]"
  let ?e = "\<lparr>entry_id = ''000000000000'', provider = cockroach, ms = 0\<rparr>"
  let ?f = "\<lambda>args :: jsval list. \<lparr>settles = Throw no_speech, elapsed = 0\<rparr>"
  let ?c = "Closure ?e (Native ?f) ''syncSpeak'' 3"
  have g: "reflect_get (Suc (Suc (Suc (Suc 0)))) ?s ?e ''SOUND'' = Some (GotThrow no_sound, ?s, [])"
    by (simp add: reflect_get_def cockroach_def access.simps)
  have sw1: "switch ?e ?s = Inr (\<lparr>entry_id = ''111111111111'', provider = dog, ms = 0\<rparr>,
                                ?s\<lparr>activeProvider := 1\<rparr>)"
    by (simp add: built_two switch_def Let_def)
  have nxt: "proxy (Suc (Suc (Suc (Suc 0)))) (?s\<lparr>activeProvider := 1\<rparr>)
               \<lparr>entry_id = ''111111111111'', provider = dog, ms = 0\<rparr> ''SOUND'' 2
             = Some (PropValue (JStr ''woof''), ?s\<lparr>activeProvider := 1\<rparr>,
                     [Lookup ''111111111111'' ''SOUND'', Within [Lookup ''111111111111'' ''sound'']])"
    by (simp add: built_two proxy.simps access.simps get_trap.simps animals)
  have pol: "shouldRetryOn ?s no_sound" "shouldRetryOn ?t no_speech"
    by (simp_all add: built_two built_three animals default_shouldRetryOn_def)
  from getter_failure_handled_as_call_failure
         [where n = "Suc (Suc (Suc (Suc 0)))" and s = ?s and target = ?e and p = "''SOUND''"
            and er = no_sound and ?s1.0 = ?s and ?tr1.0 = "[]" and r = 3, THEN conjunct1] g
  have p: "proxy (Suc (Suc (Suc (Suc (Suc 0))))) ?s ?e ''SOUND'' 3
     = Some (PropValue (JStr ''woof''), ?s\<lparr>activeProvider := 1\<rparr>,
             [Lookup ''000000000000'' ''SOUND'', Lookup ''111111111111'' ''SOUND'',
              Within [Lookup ''111111111111'' ''sound'']])"
    by (simp add: pol sw1 nxt del: One_nat_def)
  have a: "apply_prop (Suc (Suc 0)) (Native ?f) [] ?t = Some (Throw no_speech, ?t, [])"
    by (simp add: apply_prop_def)
  have sw2: "switch ?e ?t = Inr (\<lparr>entry_id = ''111111111111'', provider = dog, ms = 0\<rparr>,
                                ?t\<lparr>activeProvider := 1\<rparr>)"
    by (simp add: built_three switch_def Let_def)
  have re: "reattempt (Suc (Suc 0)) (?t\<lparr>activeProvider := 1\<rparr>)
              \<lparr>entry_id = ''111111111111'', provider = dog, ms = 0\<rparr> ''syncSpeak'' 2 []
            = Some (Returned (JStr ''woof''), ?t\<lparr>activeProvider := 1\<rparr>,
                    [Lookup ''111111111111'' ''syncSpeak'', Apply ''111111111111'' []])"
    by (simp add: reattempt_def proxy.simps invoke.simps animals)
  from getter_failure_handled_as_call_failure
         [where n = "Suc (Suc 0)" and s = ?t and c = ?c and args = "[]"
            and er = no_speech and ?s1.0 = ?t and ?tr1.0 = "[]", THEN conjunct2, THEN conjunct1] a
  have i: "invoke (Suc (Suc (Suc 0))) ?c [] ?t
     = Some (Returned (JStr ''woof''), ?t\<lparr>activeProvider := 1\<rparr>,
             [Apply ''000000000000'' [], Lookup ''111111111111'' ''syncSpeak'',
              Apply ''111111111111'' []])"
    by (simp add: pol sw2 re del: One_nat_def)
  from g p a i show ?thesis by blast
qed

subsection \<open>C10: what a dispatch may change\<close>





end
